theory Spec2Isabelle
  imports Complex_Main "HOL-Library.Word" "HOL-Library.Log_Nat" "HOL-Library.Monad_Syntax"
begin

unbundle bit_operations_syntax

section \<open>Data model of \<^verbatim>\<open>chain/x/peggy/types/types.pb.go\<close>\<close>

text \<open>
  Go's \<^verbatim>\<open>uint64\<close>, \<^verbatim>\<open>int32\<close> and \<^verbatim>\<open>byte\<close> are words. A Go \<^verbatim>\<open>string\<close> is a sequence of bytes
  (the generated code never inspects the text encoding). A Go slice is either \<^verbatim>\<open>nil\<close> or a
  sequence, so the two slice-typed fields \<^verbatim>\<open>Members\<close> and \<^verbatim>\<open>Hash\<close> are options, \<open>None\<close>
  being \<^verbatim>\<open>nil\<close>. The elements of \<^verbatim>\<open>Members\<close> are pointers in the source; a record here is a
  non-nil pointer's target.
\<close>

type_synonym byte = "8 word"
type_synonym uint64 = "64 word"
type_synonym int32 = "32 word"

record BridgeValidator =
  Power :: uint64
  EthereumAddress :: "byte list"

record Valset =
  Nonce :: uint64
  Members :: "BridgeValidator list option"
  Height :: uint64

record GenericClaim =
  EventNonce :: uint64
  ClaimType :: int32
  Hash :: "byte list option"
  EventClaimer :: "byte list"

text \<open>The zero values \<^verbatim>\<open>BridgeValidator{}\<close>, \<^verbatim>\<open>Valset{}\<close> and \<^verbatim>\<open>GenericClaim{}\<close>.\<close>

definition BridgeValidator_zero :: BridgeValidator where
  "BridgeValidator_zero = \<lparr>Power = 0, EthereumAddress = []\<rparr>"

definition Valset_zero :: Valset where
  "Valset_zero = \<lparr>Nonce = 0, Members = None, Height = 0\<rparr>"

definition GenericClaim_zero :: GenericClaim where
  "GenericClaim_zero = \<lparr>EventNonce = 0, ClaimType = 0, Hash = None, EventClaimer = []\<rparr>"

text \<open>
  The errors the decoders return: the three package-level error values, \<^verbatim>\<open>io.ErrUnexpectedEOF\<close>,
  and the four families built with \<^verbatim>\<open>fmt.Errorf\<close> (with the values their messages print).
\<close>

datatype error =
    ErrInvalidLengthTypes
  | ErrIntOverflowTypes
  | ErrUnexpectedEndOfGroupTypes
  | ErrUnexpectedEOF
  | ErrWiretypeEndGroup string
  | ErrIllegalTag string int32 uint64
  | ErrWrongWireType string nat
  | ErrIllegalWireType nat

text \<open>
  Go's \<^verbatim>\<open>int\<close> is 64 bits wide on the platforms this code is built for: \<open>int64\<close> wraps a
  mathematical integer into its range. \<open>len\<close> is Go's \<^verbatim>\<open>len\<close>, an \<^verbatim>\<open>int\<close>; \<open>slen\<close> is the
  length of a slice that may be \<^verbatim>\<open>nil\<close>.
\<close>

definition int64 :: "int \<Rightarrow> int" where
  "int64 x = (x + 2 ^ 63) mod 2 ^ 64 - 2 ^ 63"

definition len :: "'a list \<Rightarrow> int" where
  "len xs = int64 (int (length xs))"

definition slice_of :: "'a list option \<Rightarrow> 'a list" where
  "slice_of s = (case s of None \<Rightarrow> [] | Some xs \<Rightarrow> xs)"

definition slice :: "'a list \<Rightarrow> nat \<Rightarrow> nat \<Rightarrow> 'a list" where
  "slice xs i j = take (j - i) (drop i xs)"

section \<open>Varint size and encoder\<close>

text \<open>
  \<^verbatim>\<open>math/bits.Len64\<close> belongs to Go's standard library: the minimum number of bits needed to
  represent its argument, 0 for 0.
\<close>

fun bit_len :: "nat \<Rightarrow> nat" where
  "bit_len n = (if n = 0 then 0 else Suc (bit_len (n div 2)))"

declare bit_len.simps [simp del]

definition Len64 :: "uint64 \<Rightarrow> nat" where
  "Len64 x = bit_len (unat x)"

definition sovTypes :: "uint64 \<Rightarrow> nat" where
  "sovTypes x = (Len64 (x OR 1) + 6) div 7"

text \<open>
  A write \<^verbatim>\<open>dAtA[i] = b\<close> panics out of range; \<^verbatim>\<open>copy(dAtA[i:], src)\<close> panics when the slice
  expression is out of range and copies as many bytes as fit. A panic is \<open>None\<close>.
\<close>

definition store :: "byte list \<Rightarrow> int \<Rightarrow> byte \<Rightarrow> byte list option" where
  "store dAtA i b = (if 0 \<le> i \<and> i < int (length dAtA) then Some (dAtA[nat i := b]) else None)"

definition copy_at :: "byte list \<Rightarrow> int \<Rightarrow> byte list \<Rightarrow> byte list option" where
  "copy_at dAtA i src =
     (if 0 \<le> i \<and> i \<le> int (length dAtA)
      then (let n = min (length dAtA - nat i) (length src)
            in Some (take (nat i) dAtA @ take n src @ drop (nat i + n) dAtA))
      else None)"

lemma drop_bit_7_less: "(v :: uint64) \<ge> 0x80 \<Longrightarrow> unat (drop_bit 7 v) < unat v"
proof -
  assume "v \<ge> 0x80"
  then have "unat v \<ge> 128" by (simp add: word_le_nat_alt)
  then have "unat v div 128 < unat v" by simp
  then show ?thesis by (simp add: drop_bit_eq_div unat_div)
qed

text \<open>The loop of \<^verbatim>\<open>encodeVarintTypes\<close>; it returns the buffer and the offset of its last write.\<close>

function encodeVarint_loop :: "byte list \<Rightarrow> int \<Rightarrow> uint64 \<Rightarrow> (byte list \<times> int) option" where
  "encodeVarint_loop dAtA offset v =
     (if v \<ge> 0x80
      then (case store dAtA offset (ucast (v AND 0x7f OR 0x80)) of
              None \<Rightarrow> None
            | Some d \<Rightarrow> encodeVarint_loop d (offset + 1) (drop_bit 7 v))
      else (case store dAtA offset (ucast v) of
              None \<Rightarrow> None
            | Some d \<Rightarrow> Some (d, offset)))"
  by pat_completeness auto

termination
  by (relation "measure (\<lambda>(d, off, v). unat v)") (auto simp: drop_bit_7_less)

declare encodeVarint_loop.simps [simp del]

definition encodeVarintTypes :: "byte list \<Rightarrow> int \<Rightarrow> uint64 \<Rightarrow> (byte list \<times> int) option" where
  "encodeVarintTypes dAtA offset v =
     (let base = offset - int (sovTypes v)
      in case encodeVarint_loop dAtA base v of
           None \<Rightarrow> None
         | Some (d, final) \<Rightarrow> Some (d, base))"

section \<open>BridgeValidator: size and encoder\<close>

definition BridgeValidator_Size :: "BridgeValidator \<Rightarrow> nat" where
  "BridgeValidator_Size m =
     (let n = 0;
          n = (if Power m \<noteq> 0 then n + (1 + sovTypes (Power m)) else n);
          l = length (EthereumAddress m);
          n = (if l > 0 then n + (1 + l + sovTypes (of_nat l)) else n)
      in n)"

definition BridgeValidator_MarshalToSizedBuffer ::
  "BridgeValidator \<Rightarrow> byte list \<Rightarrow> (byte list \<times> int) option" where
  "BridgeValidator_MarshalToSizedBuffer m dAtA0 = do {
     let i = int (length dAtA0);
     (dAtA, i) \<leftarrow>
       (if length (EthereumAddress m) > 0 then do {
          let i = i - int (length (EthereumAddress m));
          dAtA \<leftarrow> copy_at dAtA0 i (EthereumAddress m);
          (dAtA, i) \<leftarrow> encodeVarintTypes dAtA i (of_nat (length (EthereumAddress m)));
          let i = i - 1;
          dAtA \<leftarrow> store dAtA i 0x12;
          Some (dAtA, i)
        } else Some (dAtA0, i));
     (dAtA, i) \<leftarrow>
       (if Power m \<noteq> 0 then do {
          (dAtA, i) \<leftarrow> encodeVarintTypes dAtA i (Power m);
          let i = i - 1;
          dAtA \<leftarrow> store dAtA i 0x8;
          Some (dAtA, i)
        } else Some (dAtA, i));
     Some (dAtA, int (length dAtA) - i)
   }"

text \<open>\<^verbatim>\<open>dAtA[:n]\<close> panics unless \<open>0 \<le> n \<le> cap\<close>; the buffers here have no spare capacity.\<close>

definition prefix_to :: "byte list \<Rightarrow> int \<Rightarrow> byte list option" where
  "prefix_to dAtA n = (if 0 \<le> n \<and> n \<le> int (length dAtA) then Some (take (nat n) dAtA) else None)"

definition BridgeValidator_Marshal :: "BridgeValidator \<Rightarrow> byte list option" where
  "BridgeValidator_Marshal m = do {
     let size = BridgeValidator_Size m;
     let dAtA = replicate size (0 :: byte);
     dAtA' \<leftarrow> prefix_to dAtA (int size);
     (dAtA, n) \<leftarrow> BridgeValidator_MarshalToSizedBuffer m dAtA';
     prefix_to dAtA n
   }"

lemma int64_range: "- (2 ^ 63) \<le> int64 x \<and> int64 x < 2 ^ 63"
  by (simp add: int64_def)

lemma int64_id: "- (2 ^ 63) \<le> x \<Longrightarrow> x < 2 ^ 63 \<Longrightarrow> int64 x = x"
  by (simp add: int64_def)

lemma int64_nonneg:
  assumes "0 \<le> x" and "x < 2 ^ 64" and "0 \<le> int64 x"
  shows "int64 x = x"
proof (cases "x < 2 ^ 63")
  case True
  with assms(1) show ?thesis by (simp add: int64_id)
next
  case False
  have "(x + 2 ^ 63) mod 2 ^ 64 = (x + 2 ^ 63 - 2 ^ 64) mod 2 ^ 64"
    by (simp only: minus_mod_self2)
  also have "\<dots> = x + 2 ^ 63 - 2 ^ 64"
    using False assms(2) by (intro mod_pos_pos_trivial) simp_all
  finally have "int64 x = x - 2 ^ 64" by (simp add: int64_def)
  with assms(2,3) show ?thesis by simp
qed

lemma len_less: "len xs < 2 ^ 63"
  using int64_range [of "int (length xs)"] by (simp add: len_def)

lemma len_le_length: "len xs \<le> int (length xs)"
proof (cases "int (length xs) < 2 ^ 63")
  case True
  then show ?thesis by (simp add: len_def int64_id)
next
  case False
  with len_less [of xs] show ?thesis by linarith
qed

lemma len_small: "length xs < 2 ^ 63 \<Longrightarrow> len xs = int (length xs)"
  by (simp add: len_def int64_id)

section \<open>Reading varints\<close>

text \<open>
  The loop that the decoders repeat for every varint: it accumulates into a variable of the
  width of its target (\<^verbatim>\<open>uint64\<close>, \<^verbatim>\<open>int\<close> or \<^verbatim>\<open>int32\<close>) and returns the accumulator and the index
  also when it fails, since the accumulator may be a field of the receiver.
\<close>

function varint_loop ::
  "byte list \<Rightarrow> nat \<Rightarrow> nat \<Rightarrow> 'a::len word \<Rightarrow> 'a word \<times> nat \<times> error option" where
  "varint_loop dAtA iNdEx shift acc =
     (if shift \<ge> 64 then (acc, iNdEx, Some ErrIntOverflowTypes)
      else if int iNdEx \<ge> len dAtA then (acc, iNdEx, Some ErrUnexpectedEOF)
      else (let b = dAtA ! iNdEx;
                iNdEx' = iNdEx + 1;
                acc' = acc OR push_bit shift (ucast (b AND 0x7F))
            in if b < 0x80 then (acc', iNdEx', None)
               else varint_loop dAtA iNdEx' (shift + 7) acc'))"
  by pat_completeness auto
termination
  by (relation "measure (\<lambda>(d, i, shift, acc). 64 - shift)") auto

declare varint_loop.simps [simp del]


lemma varint_loop_index:
  "varint_loop dAtA i shift (acc :: 'a::len word) = (a, j, None) \<Longrightarrow> i < j \<and> int j \<le> len dAtA"
proof (induction dAtA i shift acc rule: varint_loop.induct)
  case (1 dAtA iNdEx shift acc)
  show ?case
  proof (cases "dAtA ! iNdEx < 0x80")
    case True
    with "1.prems" show ?thesis
      by (subst (asm) varint_loop.simps) (auto simp: Let_def split: if_splits)
  next
    case False
    with "1.prems" have
      "varint_loop dAtA (iNdEx + 1) (shift + 7)
         (acc OR push_bit shift (ucast (dAtA ! iNdEx AND 0x7F))) = (a, j, None)"
      and "\<not> 64 \<le> shift" and "\<not> len dAtA \<le> int iNdEx"
      by (subst (asm) varint_loop.simps, simp add: Let_def split: if_splits)+
    with "1.IH" [OF _ _ refl refl refl False] have "iNdEx + 1 < j \<and> int j \<le> len dAtA"
      by simp
    then show ?thesis by simp
  qed
qed

section \<open>Skipping an unrecognized field\<close>

text \<open>The varint loop of wire type 0 in \<^verbatim>\<open>skipTypes\<close>: it advances the index and keeps no value.\<close>

function skip_varint_loop :: "byte list \<Rightarrow> nat \<Rightarrow> nat \<Rightarrow> nat \<times> error option" where
  "skip_varint_loop dAtA iNdEx shift =
     (if shift \<ge> 64 then (iNdEx, Some ErrIntOverflowTypes)
      else if int iNdEx \<ge> len dAtA then (iNdEx, Some ErrUnexpectedEOF)
      else (let iNdEx' = iNdEx + 1
            in if dAtA ! (iNdEx' - 1) < 0x80 then (iNdEx', None)
               else skip_varint_loop dAtA iNdEx' (shift + 7)))"
  by pat_completeness auto
termination
  by (relation "measure (\<lambda>(d, i, shift). 64 - shift)") auto

declare skip_varint_loop.simps [simp del]

text \<open>
  The \<^verbatim>\<open>switch wireType\<close> of \<^verbatim>\<open>skipTypes\<close>: the new index (an \<^verbatim>\<open>int\<close>, which \<^verbatim>\<open>iNdEx += length\<close>
  may wrap) and the new depth, or the error returned from inside the switch.
\<close>

definition skipTypes_switch :: "byte list \<Rightarrow> nat \<Rightarrow> nat \<Rightarrow> nat \<Rightarrow> error + (int \<times> nat)" where
  "skipTypes_switch dAtA iNdEx depth wireType =
     (if wireType = 0 then
        (case skip_varint_loop dAtA iNdEx 0 of
           (iNdEx', Some e) \<Rightarrow> Inl e
         | (iNdEx', None) \<Rightarrow> Inr (int iNdEx', depth))
      else if wireType = 1 then Inr (int64 (int iNdEx + 8), depth)
      else if wireType = 2 then
        (case varint_loop dAtA iNdEx 0 (0 :: uint64) of
           (length64, iNdEx', Some e) \<Rightarrow> Inl e
         | (length64, iNdEx', None) \<Rightarrow>
             (let length' = sint length64
              in if length' < 0 then Inl ErrInvalidLengthTypes
                 else Inr (int64 (int iNdEx' + length'), depth)))
      else if wireType = 3 then Inr (int iNdEx, depth + 1)
      else if wireType = 4 then
        (if depth = 0 then Inl ErrUnexpectedEndOfGroupTypes else Inr (int iNdEx, depth - 1))
      else if wireType = 5 then Inr (int64 (int iNdEx + 4), depth)
      else Inl (ErrIllegalWireType wireType))"

lemma skip_varint_loop_index:
  "skip_varint_loop dAtA i shift = (j, None) \<Longrightarrow> i < j \<and> int j \<le> len dAtA"
proof (induction dAtA i shift rule: skip_varint_loop.induct)
  case (1 dAtA iNdEx shift)
  show ?case
  proof (cases "dAtA ! iNdEx < 0x80")
    case True
    with "1.prems" show ?thesis
      by (subst (asm) skip_varint_loop.simps) (auto simp: Let_def split: if_splits)
  next
    case False
    with "1.prems" have
      "skip_varint_loop dAtA (iNdEx + 1) (shift + 7) = (j, None)"
      and "\<not> 64 \<le> shift" and "\<not> len dAtA \<le> int iNdEx"
      by (subst (asm) skip_varint_loop.simps, simp add: Let_def split: if_splits)+
    with "1.IH" [OF _ _ refl] False have "iNdEx + 1 < j \<and> int j \<le> len dAtA"
      by simp
    then show ?thesis by simp
  qed
qed

lemma int64_add_progress:
  assumes "int i \<le> len dAtA" and "0 \<le> k" and "k < 2 ^ 63" and "0 \<le> int64 (int i + k)"
  shows "int64 (int i + k) = int i + k"
proof -
  have "int i < 2 ^ 63" using assms(1) len_less [of dAtA] by linarith
  with assms(2,3) have "0 \<le> int i + k" "int i + k < 2 ^ 64" by simp_all
  then show ?thesis using assms(4) by (rule int64_nonneg)
qed

lemma sint_less: "sint (w :: uint64) < 2 ^ 63"
  using sint_lt [of w] by simp

lemma skipTypes_switch_progress:
  assumes sw: "skipTypes_switch dAtA i depth wt = Inr (i', d')"
    and le: "int i \<le> len dAtA" and nn: "0 \<le> i'"
  shows "int i \<le> i'"
proof -
  consider "wt = 0" | "wt = 1" | "wt = 2" | "wt = 3" | "wt = 4" | "wt = 5" | "wt > 5"
    by linarith
  then show ?thesis
  proof cases
    case 1
    with sw obtain j where "skip_varint_loop dAtA i 0 = (j, None)" and "i' = int j"
      by (auto simp: skipTypes_switch_def split: prod.splits option.splits)
    with skip_varint_loop_index [of dAtA i 0 j] show ?thesis by simp
  next
    case 2
    with sw have e: "i' = int64 (int i + 8)" by (simp add: skipTypes_switch_def)
    with int64_add_progress [OF le, of 8] nn show ?thesis by simp
  next
    case 3
    with sw obtain w j where v: "varint_loop dAtA i 0 (0 :: uint64) = (w, j, None)"
      and s: "0 \<le> sint w" and e: "i' = int64 (int j + sint w)"
      by (auto simp: skipTypes_switch_def Let_def split: prod.splits option.splits if_splits)
    from varint_loop_index [OF v] have j: "i < j" "int j \<le> len dAtA" by simp_all
    from int64_add_progress [OF j(2) s sint_less] nn e have "i' = int j + sint w" by simp
    with j(1) s show ?thesis by simp
  next
    case 4
    with sw show ?thesis by (simp add: skipTypes_switch_def)
  next
    case 5
    with sw show ?thesis by (simp add: skipTypes_switch_def split: if_splits)
  next
    case 6
    with sw have e: "i' = int64 (int i + 4)" by (simp add: skipTypes_switch_def)
    with int64_add_progress [OF le, of 4] nn show ?thesis by simp
  next
    case 7
    with sw show ?thesis by (simp add: skipTypes_switch_def)
  qed
qed

lemma skip_step_progress:
  assumes "(wire, i1, None) = varint_loop dAtA i 0 (0 :: uint64)"
    and "skipTypes_switch dAtA i1 depth wt = Inr (i2, d')" and "\<not> i2 < 0"
  shows "int i < i2"
proof -
  from assms(1) have "varint_loop dAtA i 0 (0 :: uint64) = (wire, i1, None)" by simp
  from varint_loop_index [OF this] have "i < i1" "int i1 \<le> len dAtA" by simp_all
  with skipTypes_switch_progress [OF assms(2)] assms(3) show ?thesis by simp
qed

text \<open>
  The \<^verbatim>\<open>for iNdEx < l\<close> loop of \<^verbatim>\<open>skipTypes\<close>, with the index and the group depth as its state.
\<close>

function skipTypes_loop :: "byte list \<Rightarrow> nat \<Rightarrow> nat \<Rightarrow> int \<times> error option" where
  "skipTypes_loop dAtA iNdEx depth =
     (if int iNdEx < len dAtA then
        (case varint_loop dAtA iNdEx 0 (0 :: uint64) of
           (wire, iNdEx1, Some e) \<Rightarrow> (0, Some e)
         | (wire, iNdEx1, None) \<Rightarrow>
             (case skipTypes_switch dAtA iNdEx1 depth (unat (wire AND 0x7)) of
                Inl e \<Rightarrow> (0, Some e)
              | Inr (iNdEx2, depth') \<Rightarrow>
                  if iNdEx2 < 0 then (0, Some ErrInvalidLengthTypes)
                  else if depth' = 0 then (iNdEx2, None)
                  else skipTypes_loop dAtA (nat iNdEx2) depth'))
      else (0, Some ErrUnexpectedEOF))"
  by pat_completeness auto
termination
  by (relation "measure (\<lambda>(d, i, depth). nat (len d - int i))")
    (auto dest: skip_step_progress)

declare skipTypes_loop.simps [simp del]

definition skipTypes :: "byte list \<Rightarrow> int \<times> error option" where
  "skipTypes dAtA = skipTypes_loop dAtA 0 0"


lemma skipTypes_loop_pos:
  "skipTypes_loop dAtA i depth = (n, None) \<Longrightarrow> int i < n"
proof (induction dAtA i depth rule: skipTypes_loop.induct)
  case (1 dAtA iNdEx depth)
  from "1.prems" have lt: "int iNdEx < len dAtA"
    by (subst (asm) skipTypes_loop.simps) (simp split: if_splits)
  obtain wire i1 e1 where v: "varint_loop dAtA iNdEx 0 (0 :: uint64) = (wire, i1, e1)"
    by (cases "varint_loop dAtA iNdEx 0 (0 :: uint64)") auto
  with "1.prems" lt have e1: "e1 = None"
    by (subst (asm) skipTypes_loop.simps) (auto split: option.splits)
  with "1.prems" lt v obtain i2 d' where
    sw: "skipTypes_switch dAtA i1 depth (unat (wire AND 0x7)) = Inr (i2, d')"
    by (subst (asm) skipTypes_loop.simps) (auto split: sum.splits)
  with "1.prems" lt v e1 have nn: "\<not> i2 < 0"
    by (subst (asm) skipTypes_loop.simps) (auto split: if_splits)
  from v e1 have v': "(wire, i1, None) = varint_loop dAtA iNdEx 0 (0 :: uint64)" by simp
  from skip_step_progress [OF v' sw nn] have pr: "int iNdEx < i2" .
  show ?case
  proof (cases "d' = 0")
    case True
    with "1.prems" lt v e1 sw nn have "n = i2"
      by (subst (asm) skipTypes_loop.simps) simp
    with pr show ?thesis by simp
  next
    case False
    with "1.prems" lt v e1 sw nn have r: "skipTypes_loop dAtA (nat i2) d' = (n, None)"
      by (subst (asm) skipTypes_loop.simps) simp
    from "1.IH" [OF lt v' refl refl sw refl nn False r] pr show ?thesis by simp
  qed
qed

section \<open>BridgeValidator: decoder\<close>

text \<open>
  One pass through the body of a decoder's \<^verbatim>\<open>for iNdEx < l\<close> loop either returns from
  \<^verbatim>\<open>Unmarshal\<close> (with the receiver as it then is and the error) or goes on to the next pass
  with a new index. The receiver is threaded through: the source assigns to its fields in place.
\<close>

datatype 'm step = Return 'm "error option" | Continue nat 'm

text \<open>The \<^verbatim>\<open>default\<close> branch shared by the three decoders: rewind to the tag and skip the field.\<close>

definition skip_unknown :: "byte list \<Rightarrow> nat \<Rightarrow> 'm \<Rightarrow> 'm step" where
  "skip_unknown dAtA preIndex m =
     (let iNdEx = preIndex
      in case skipTypes (drop iNdEx dAtA) of
           (skippy, Some err) \<Rightarrow> Return m (Some err)
         | (skippy, None) \<Rightarrow>
             if skippy < 0 then Return m (Some ErrInvalidLengthTypes)
             else if int64 (int iNdEx + skippy) < 0 then Return m (Some ErrInvalidLengthTypes)
             else if int64 (int iNdEx + skippy) > len dAtA then Return m (Some ErrUnexpectedEOF)
             else Continue (nat (int64 (int iNdEx + skippy))) m)"

definition BridgeValidator_step :: "byte list \<Rightarrow> nat \<Rightarrow> BridgeValidator \<Rightarrow> BridgeValidator step" where
  "BridgeValidator_step dAtA iNdEx0 m =
     (let preIndex = iNdEx0
      in case varint_loop dAtA iNdEx0 0 (0 :: uint64) of
           (wire, iNdEx, Some err) \<Rightarrow> Return m (Some err)
         | (wire, iNdEx, None) \<Rightarrow>
             (let fieldNum = (ucast (drop_bit 3 wire) :: int32);
                  wireType = unat (wire AND 0x7)
              in if wireType = 4 then Return m (Some (ErrWiretypeEndGroup ''BridgeValidator''))
                 else if sint fieldNum \<le> 0
                   then Return m (Some (ErrIllegalTag ''BridgeValidator'' fieldNum wire))
                 else if fieldNum = 1 then
                   (if wireType \<noteq> 0 then Return m (Some (ErrWrongWireType ''Power'' wireType))
                    else case varint_loop dAtA iNdEx 0 (0 :: uint64) of
                           (v, iNdEx, Some err) \<Rightarrow> Return (m\<lparr>Power := v\<rparr>) (Some err)
                         | (v, iNdEx, None) \<Rightarrow> Continue iNdEx (m\<lparr>Power := v\<rparr>))
                 else if fieldNum = 2 then
                   (if wireType \<noteq> 2
                      then Return m (Some (ErrWrongWireType ''EthereumAddress'' wireType))
                    else case varint_loop dAtA iNdEx 0 (0 :: uint64) of
                           (stringLen, iNdEx, Some err) \<Rightarrow> Return m (Some err)
                         | (stringLen, iNdEx, None) \<Rightarrow>
                             (let intStringLen = sint stringLen
                              in if intStringLen < 0 then Return m (Some ErrInvalidLengthTypes)
                                 else let postIndex = int64 (int iNdEx + intStringLen)
                                      in if postIndex < 0 then Return m (Some ErrInvalidLengthTypes)
                                         else if postIndex > len dAtA
                                           then Return m (Some ErrUnexpectedEOF)
                                         else Continue (nat postIndex)
                                                (m\<lparr>EthereumAddress :=
                                                     slice dAtA iNdEx (nat postIndex)\<rparr>)))
                 else skip_unknown dAtA preIndex m))"

lemma skipTypes_switch_bound:
  assumes sw: "skipTypes_switch dAtA i depth wt = Inr (i', d')" and le: "int i \<le> len dAtA"
  shows "i' < 2 ^ 63"
proof -
  have b: "int i < 2 ^ 63" using le len_less [of dAtA] by linarith
  consider "wt = 0" | "wt = 1" | "wt = 2" | "wt = 3" | "wt = 4" | "wt = 5" | "wt > 5"
    by linarith
  then show ?thesis
  proof cases
    case 1
    with sw obtain j where "skip_varint_loop dAtA i 0 = (j, None)" and "i' = int j"
      by (auto simp: skipTypes_switch_def split: prod.splits option.splits)
    with skip_varint_loop_index [of dAtA i 0 j] len_less [of dAtA] show ?thesis by simp
  next
    case 2
    with sw have "i' = int64 (int i + 8)" by (simp add: skipTypes_switch_def)
    with int64_range [of "int i + 8"] show ?thesis by simp
  next
    case 3
    with sw obtain w :: uint64 and j :: nat where "i' = int64 (int j + sint w)"
      by (auto simp: skipTypes_switch_def Let_def split: prod.splits option.splits if_splits)
    with int64_range [of "int j + sint w"] show ?thesis by simp
  next
    case 4
    with sw b show ?thesis by (simp add: skipTypes_switch_def)
  next
    case 5
    with sw b show ?thesis by (auto simp add: skipTypes_switch_def split: if_splits)
  next
    case 6
    with sw have "i' = int64 (int i + 4)" by (simp add: skipTypes_switch_def)
    with int64_range [of "int i + 4"] show ?thesis by simp
  next
    case 7
    with sw show ?thesis by (simp add: skipTypes_switch_def)
  qed
qed

lemma skipTypes_loop_bound:
  "skipTypes_loop dAtA i depth = (n, None) \<Longrightarrow> n < 2 ^ 63"
proof (induction dAtA i depth rule: skipTypes_loop.induct)
  case (1 dAtA iNdEx depth)
  from "1.prems" have lt: "int iNdEx < len dAtA"
    by (subst (asm) skipTypes_loop.simps) (simp split: if_splits)
  obtain wire i1 e1 where v: "varint_loop dAtA iNdEx 0 (0 :: uint64) = (wire, i1, e1)"
    by (cases "varint_loop dAtA iNdEx 0 (0 :: uint64)") auto
  with "1.prems" lt have e1: "e1 = None"
    by (subst (asm) skipTypes_loop.simps) (auto split: option.splits)
  with "1.prems" lt v obtain i2 d' where
    sw: "skipTypes_switch dAtA i1 depth (unat (wire AND 0x7)) = Inr (i2, d')"
    by (subst (asm) skipTypes_loop.simps) (auto split: sum.splits)
  with "1.prems" lt v e1 have nn: "\<not> i2 < 0"
    by (subst (asm) skipTypes_loop.simps) (auto split: if_splits)
  from v e1 have v': "(wire, i1, None) = varint_loop dAtA iNdEx 0 (0 :: uint64)" by simp
  from varint_loop_index [OF v [unfolded e1]] have "int i1 \<le> len dAtA" by simp
  from skipTypes_switch_bound [OF sw this] have b: "i2 < 2 ^ 63" .
  show ?case
  proof (cases "d' = 0")
    case True
    with "1.prems" lt v e1 sw nn have "n = i2"
      by (subst (asm) skipTypes_loop.simps) simp
    with b show ?thesis by simp
  next
    case False
    with "1.prems" lt v e1 sw nn have r: "skipTypes_loop dAtA (nat i2) d' = (n, None)"
      by (subst (asm) skipTypes_loop.simps) simp
    from "1.IH" [OF lt v' refl refl sw refl nn False r] show ?thesis by simp
  qed
qed

lemma skip_unknown_progress:
  assumes "skip_unknown dAtA i m = Continue i' m'" and "int i < len dAtA"
  shows "i < i'"
proof -
  from assms(1) obtain skippy where s: "skipTypes (drop i dAtA) = (skippy, None)"
    and nn: "\<not> int64 (int i + skippy) < 0" and e: "i' = nat (int64 (int i + skippy))"
    by (auto simp: skip_unknown_def Let_def split: prod.splits option.splits if_splits)
  from s have p: "0 < skippy" and b: "skippy < 2 ^ 63"
    using skipTypes_loop_pos [of "drop i dAtA" 0 0 skippy]
      skipTypes_loop_bound [of "drop i dAtA" 0 0 skippy]
    by (simp_all add: skipTypes_def)
  have "int i \<le> len dAtA" using assms(2) by simp
  from int64_add_progress [OF this _ b] p nn have "int64 (int i + skippy) = int i + skippy"
    by simp
  with e p show ?thesis by simp
qed

lemma BridgeValidator_step_progress:
  assumes st: "BridgeValidator_step dAtA i m = Continue i' m'" and lt: "int i < len dAtA"
  shows "i < i'"
proof -
  obtain wire i1 e1 where v: "varint_loop dAtA i 0 (0 :: uint64) = (wire, i1, e1)"
    by (cases "varint_loop dAtA i 0 (0 :: uint64)") auto
  with st have e1: "e1 = None"
    by (auto simp: BridgeValidator_step_def split: option.splits)
  from varint_loop_index [OF v [unfolded e1]] have i1: "i < i1" "int i1 \<le> len dAtA"
    by simp_all
  define fieldNum where "fieldNum = (ucast (drop_bit 3 wire) :: int32)"
  consider "fieldNum = 1" | "fieldNum = 2" | "fieldNum \<noteq> 1 \<and> fieldNum \<noteq> 2" by blast
  then show ?thesis
  proof cases
    case 1
    with st v e1 obtain w j where "varint_loop dAtA i1 0 (0 :: uint64) = (w, j, None)"
      and "i' = j"
      by (auto simp: BridgeValidator_step_def Let_def fieldNum_def
          split: if_splits prod.splits option.splits)
    with varint_loop_index [of dAtA i1 0 "0 :: uint64" w j] i1 show ?thesis by simp
  next
    case 2
    with st v e1 obtain w j where r: "varint_loop dAtA i1 0 (0 :: uint64) = (w, j, None)"
      and s: "0 \<le> sint w" and nn: "0 \<le> int64 (int j + sint w)"
      and e: "i' = nat (int64 (int j + sint w))"
      by (auto simp: BridgeValidator_step_def Let_def fieldNum_def
          split: if_splits prod.splits option.splits)
    from varint_loop_index [OF r] have j: "i1 < j" "int j \<le> len dAtA" by simp_all
    from int64_add_progress [OF j(2) s sint_less nn] e have "i' = nat (int j + sint w)" by simp
    with j(1) i1(1) s show ?thesis by linarith
  next
    case 3
    with st v e1 have "skip_unknown dAtA i m = Continue i' m'"
      by (auto simp: BridgeValidator_step_def Let_def fieldNum_def split: if_splits)
    from skip_unknown_progress [OF this lt] show ?thesis .
  qed
qed

text \<open>The loop of \<^verbatim>\<open>BridgeValidator.Unmarshal\<close> and the check after it.\<close>

function BridgeValidator_loop ::
  "byte list \<Rightarrow> nat \<Rightarrow> BridgeValidator \<Rightarrow> BridgeValidator \<times> error option" where
  "BridgeValidator_loop dAtA iNdEx m =
     (if int iNdEx < len dAtA then
        (case BridgeValidator_step dAtA iNdEx m of
           Return m' err \<Rightarrow> (m', err)
         | Continue iNdEx' m' \<Rightarrow> BridgeValidator_loop dAtA iNdEx' m')
      else if int iNdEx > len dAtA then (m, Some ErrUnexpectedEOF)
      else (m, None))"
  by pat_completeness auto
termination
  by (relation "measure (\<lambda>(d, i, m). nat (len d - int i))")
    (auto dest: BridgeValidator_step_progress)

declare BridgeValidator_loop.simps [simp del]

definition BridgeValidator_Unmarshal ::
  "BridgeValidator \<Rightarrow> byte list \<Rightarrow> BridgeValidator \<times> error option" where
  "BridgeValidator_Unmarshal m dAtA = BridgeValidator_loop dAtA 0 m"



section \<open>Valset: size, encoder and decoder\<close>

definition Valset_Size :: "Valset \<Rightarrow> nat" where
  "Valset_Size m =
     (let n = 0;
          n = (if Nonce m \<noteq> 0 then n + (1 + sovTypes (Nonce m)) else n);
          n = (if length (slice_of (Members m)) > 0
               then fold (\<lambda>e n. let l = BridgeValidator_Size e in n + (1 + l + sovTypes (of_nat l)))
                      (slice_of (Members m)) n
               else n);
          n = (if Height m \<noteq> 0 then n + (1 + sovTypes (Height m)) else n)
      in n)"

text \<open>
  The loop \<^verbatim>\<open>for iNdEx := len(m.Members) - 1; iNdEx >= 0; iNdEx--\<close>; the first argument after the
  members is \<open>iNdEx + 1\<close>. The member writes into \<^verbatim>\<open>dAtA[:i]\<close>, which shares the array of
  \<^verbatim>\<open>dAtA\<close>: its bytes replace the first \<open>i\<close> bytes of the buffer.
\<close>

fun Valset_members_loop ::
  "BridgeValidator list \<Rightarrow> nat \<Rightarrow> byte list \<Rightarrow> int \<Rightarrow> (byte list \<times> int) option" where
  "Valset_members_loop ms 0 dAtA i = Some (dAtA, i)"
| "Valset_members_loop ms (Suc iNdEx) dAtA i = do {
     sub \<leftarrow> prefix_to dAtA i;
     (sub', size) \<leftarrow> BridgeValidator_MarshalToSizedBuffer (ms ! iNdEx) sub;
     let dAtA = sub' @ drop (nat i) dAtA;
     let i = i - size;
     (dAtA, i) \<leftarrow> encodeVarintTypes dAtA i (word_of_int size);
     let i = i - 1;
     dAtA \<leftarrow> store dAtA i 0x12;
     Valset_members_loop ms iNdEx dAtA i
   }"

definition Valset_MarshalToSizedBuffer :: "Valset \<Rightarrow> byte list \<Rightarrow> (byte list \<times> int) option" where
  "Valset_MarshalToSizedBuffer m dAtA0 = do {
     let i = int (length dAtA0);
     (dAtA, i) \<leftarrow>
       (if Height m \<noteq> 0 then do {
          (dAtA, i) \<leftarrow> encodeVarintTypes dAtA0 i (Height m);
          let i = i - 1;
          dAtA \<leftarrow> store dAtA i 0x18;
          Some (dAtA, i)
        } else Some (dAtA0, i));
     (dAtA, i) \<leftarrow>
       (if length (slice_of (Members m)) > 0
        then Valset_members_loop (slice_of (Members m)) (length (slice_of (Members m))) dAtA i
        else Some (dAtA, i));
     (dAtA, i) \<leftarrow>
       (if Nonce m \<noteq> 0 then do {
          (dAtA, i) \<leftarrow> encodeVarintTypes dAtA i (Nonce m);
          let i = i - 1;
          dAtA \<leftarrow> store dAtA i 0x8;
          Some (dAtA, i)
        } else Some (dAtA, i));
     Some (dAtA, int (length dAtA) - i)
   }"

definition Valset_Marshal :: "Valset \<Rightarrow> byte list option" where
  "Valset_Marshal m = do {
     let size = Valset_Size m;
     let dAtA = replicate size (0 :: byte);
     dAtA' \<leftarrow> prefix_to dAtA (int size);
     (dAtA, n) \<leftarrow> Valset_MarshalToSizedBuffer m dAtA';
     prefix_to dAtA n
   }"

text \<open>\<^verbatim>\<open>append(m.Members, &BridgeValidator{})\<close> on a slice that may be \<^verbatim>\<open>nil\<close>.\<close>

definition append_member :: "BridgeValidator list option \<Rightarrow> BridgeValidator \<Rightarrow> BridgeValidator list option" where
  "append_member ms e = Some (slice_of ms @ [e])"

definition Valset_step :: "byte list \<Rightarrow> nat \<Rightarrow> Valset \<Rightarrow> Valset step" where
  "Valset_step dAtA iNdEx0 m =
     (let preIndex = iNdEx0
      in case varint_loop dAtA iNdEx0 0 (0 :: uint64) of
           (wire, iNdEx, Some err) \<Rightarrow> Return m (Some err)
         | (wire, iNdEx, None) \<Rightarrow>
             (let fieldNum = (ucast (drop_bit 3 wire) :: int32);
                  wireType = unat (wire AND 0x7)
              in if wireType = 4 then Return m (Some (ErrWiretypeEndGroup ''Valset''))
                 else if sint fieldNum \<le> 0
                   then Return m (Some (ErrIllegalTag ''Valset'' fieldNum wire))
                 else if fieldNum = 1 then
                   (if wireType \<noteq> 0 then Return m (Some (ErrWrongWireType ''Nonce'' wireType))
                    else case varint_loop dAtA iNdEx 0 (0 :: uint64) of
                           (v, iNdEx, Some err) \<Rightarrow> Return (m\<lparr>Nonce := v\<rparr>) (Some err)
                         | (v, iNdEx, None) \<Rightarrow> Continue iNdEx (m\<lparr>Nonce := v\<rparr>))
                 else if fieldNum = 2 then
                   (if wireType \<noteq> 2 then Return m (Some (ErrWrongWireType ''Members'' wireType))
                    else case varint_loop dAtA iNdEx 0 (0 :: uint64) of
                           (msglen64, iNdEx, Some err) \<Rightarrow> Return m (Some err)
                         | (msglen64, iNdEx, None) \<Rightarrow>
                             (let msglen = sint msglen64
                              in if msglen < 0 then Return m (Some ErrInvalidLengthTypes)
                                 else let postIndex = int64 (int iNdEx + msglen)
                                      in if postIndex < 0 then Return m (Some ErrInvalidLengthTypes)
                                         else if postIndex > len dAtA
                                           then Return m (Some ErrUnexpectedEOF)
                                         else
                                           (case BridgeValidator_Unmarshal BridgeValidator_zero
                                                   (slice dAtA iNdEx (nat postIndex)) of
                                              (e, Some err) \<Rightarrow>
                                                Return (m\<lparr>Members := append_member (Members m) e\<rparr>)
                                                  (Some err)
                                            | (e, None) \<Rightarrow>
                                                Continue (nat postIndex)
                                                  (m\<lparr>Members := append_member (Members m) e\<rparr>))))
                 else if fieldNum = 3 then
                   (if wireType \<noteq> 0 then Return m (Some (ErrWrongWireType ''Height'' wireType))
                    else case varint_loop dAtA iNdEx 0 (0 :: uint64) of
                           (v, iNdEx, Some err) \<Rightarrow> Return (m\<lparr>Height := v\<rparr>) (Some err)
                         | (v, iNdEx, None) \<Rightarrow> Continue iNdEx (m\<lparr>Height := v\<rparr>))
                 else skip_unknown dAtA preIndex m))"


lemma length_delimited_progress:
  assumes r: "varint_loop dAtA i1 0 (0 :: uint64) = (w, j, None)"
    and s: "\<not> sint w < 0" and nn: "\<not> int64 (int j + sint w) < 0"
  shows "i1 < nat (int64 (int j + sint w))"
proof -
  from varint_loop_index [OF r] have j: "i1 < j" "int j \<le> len dAtA" by simp_all
  from int64_add_progress [OF j(2) _ sint_less] s nn
  have "int64 (int j + sint w) = int j + sint w" by simp
  with j(1) s show ?thesis by linarith
qed

lemma Valset_step_progress:
  assumes st: "Valset_step dAtA i m = Continue i' m'" and lt: "int i < len dAtA"
  shows "i < i'"
proof -
  obtain wire i1 e1 where v: "varint_loop dAtA i 0 (0 :: uint64) = (wire, i1, e1)"
    by (cases "varint_loop dAtA i 0 (0 :: uint64)") auto
  with st have e1: "e1 = None"
    by (auto simp: Valset_step_def split: option.splits)
  from varint_loop_index [OF v [unfolded e1]] have i1: "i < i1" "int i1 \<le> len dAtA"
    by simp_all
  define fieldNum where "fieldNum = (ucast (drop_bit 3 wire) :: int32)"
  consider "fieldNum = 1" | "fieldNum = 2" | "fieldNum = 3"
    | "fieldNum \<noteq> 1 \<and> fieldNum \<noteq> 2 \<and> fieldNum \<noteq> 3" by blast
  then show ?thesis
  proof cases
    case 1
    with st v e1 obtain w j where "varint_loop dAtA i1 0 (0 :: uint64) = (w, j, None)"
      and "i' = j"
      by (auto simp: Valset_step_def Let_def fieldNum_def
          split: if_splits prod.splits option.splits)
    with varint_loop_index [of dAtA i1 0 "0 :: uint64" w j] i1 show ?thesis by simp
  next
    case 2
    with st v e1 obtain w j where r: "varint_loop dAtA i1 0 (0 :: uint64) = (w, j, None)"
      and s: "\<not> sint w < 0" and nn: "\<not> int64 (int j + sint w) < 0"
      and e: "i' = nat (int64 (int j + sint w))"
      by (auto simp: Valset_step_def Let_def fieldNum_def
          split: if_splits prod.splits option.splits)
    from length_delimited_progress [OF r s nn] e i1(1) show ?thesis by simp
  next
    case 3
    with st v e1 obtain w j where "varint_loop dAtA i1 0 (0 :: uint64) = (w, j, None)"
      and "i' = j"
      by (auto simp: Valset_step_def Let_def fieldNum_def
          split: if_splits prod.splits option.splits)
    with varint_loop_index [of dAtA i1 0 "0 :: uint64" w j] i1 show ?thesis by simp
  next
    case 4
    with st v e1 have "skip_unknown dAtA i m = Continue i' m'"
      by (auto simp: Valset_step_def Let_def fieldNum_def split: if_splits)
    from skip_unknown_progress [OF this lt] show ?thesis .
  qed
qed

text \<open>The loop of \<^verbatim>\<open>Valset.Unmarshal\<close> and the check after it.\<close>

function Valset_loop :: "byte list \<Rightarrow> nat \<Rightarrow> Valset \<Rightarrow> Valset \<times> error option" where
  "Valset_loop dAtA iNdEx m =
     (if int iNdEx < len dAtA then
        (case Valset_step dAtA iNdEx m of
           Return m' err \<Rightarrow> (m', err)
         | Continue iNdEx' m' \<Rightarrow> Valset_loop dAtA iNdEx' m')
      else if int iNdEx > len dAtA then (m, Some ErrUnexpectedEOF)
      else (m, None))"
  by pat_completeness auto
termination
  by (relation "measure (\<lambda>(d, i, m). nat (len d - int i))")
    (auto dest: Valset_step_progress)

declare Valset_loop.simps [simp del]

definition Valset_Unmarshal :: "Valset \<Rightarrow> byte list \<Rightarrow> Valset \<times> error option" where
  "Valset_Unmarshal m dAtA = Valset_loop dAtA 0 m"

section \<open>GenericClaim: size, encoder and decoder\<close>

text \<open>\<^verbatim>\<open>uint64(m.ClaimType)\<close> converts an \<^verbatim>\<open>int32\<close>: it extends the sign.\<close>

definition GenericClaim_Size :: "GenericClaim \<Rightarrow> nat" where
  "GenericClaim_Size m =
     (let n = 0;
          n = (if EventNonce m \<noteq> 0 then n + (1 + sovTypes (EventNonce m)) else n);
          n = (if ClaimType m \<noteq> 0 then n + (1 + sovTypes (scast (ClaimType m))) else n);
          l = length (slice_of (Hash m));
          n = (if l > 0 then n + (1 + l + sovTypes (of_nat l)) else n);
          l = length (EventClaimer m);
          n = (if l > 0 then n + (1 + l + sovTypes (of_nat l)) else n)
      in n)"

definition GenericClaim_MarshalToSizedBuffer ::
  "GenericClaim \<Rightarrow> byte list \<Rightarrow> (byte list \<times> int) option" where
  "GenericClaim_MarshalToSizedBuffer m dAtA0 = do {
     let i = int (length dAtA0);
     (dAtA, i) \<leftarrow>
       (if length (EventClaimer m) > 0 then do {
          let i = i - int (length (EventClaimer m));
          dAtA \<leftarrow> copy_at dAtA0 i (EventClaimer m);
          (dAtA, i) \<leftarrow> encodeVarintTypes dAtA i (of_nat (length (EventClaimer m)));
          let i = i - 1;
          dAtA \<leftarrow> store dAtA i 0x22;
          Some (dAtA, i)
        } else Some (dAtA0, i));
     (dAtA, i) \<leftarrow>
       (if length (slice_of (Hash m)) > 0 then do {
          let i = i - int (length (slice_of (Hash m)));
          dAtA \<leftarrow> copy_at dAtA i (slice_of (Hash m));
          (dAtA, i) \<leftarrow> encodeVarintTypes dAtA i (of_nat (length (slice_of (Hash m))));
          let i = i - 1;
          dAtA \<leftarrow> store dAtA i 0x1a;
          Some (dAtA, i)
        } else Some (dAtA, i));
     (dAtA, i) \<leftarrow>
       (if ClaimType m \<noteq> 0 then do {
          (dAtA, i) \<leftarrow> encodeVarintTypes dAtA i (scast (ClaimType m));
          let i = i - 1;
          dAtA \<leftarrow> store dAtA i 0x10;
          Some (dAtA, i)
        } else Some (dAtA, i));
     (dAtA, i) \<leftarrow>
       (if EventNonce m \<noteq> 0 then do {
          (dAtA, i) \<leftarrow> encodeVarintTypes dAtA i (EventNonce m);
          let i = i - 1;
          dAtA \<leftarrow> store dAtA i 0x8;
          Some (dAtA, i)
        } else Some (dAtA, i));
     Some (dAtA, int (length dAtA) - i)
   }"

definition GenericClaim_Marshal :: "GenericClaim \<Rightarrow> byte list option" where
  "GenericClaim_Marshal m = do {
     let size = GenericClaim_Size m;
     let dAtA = replicate size (0 :: byte);
     dAtA' \<leftarrow> prefix_to dAtA (int size);
     (dAtA, n) \<leftarrow> GenericClaim_MarshalToSizedBuffer m dAtA';
     prefix_to dAtA n
   }"

text \<open>
  \<^verbatim>\<open>append(m.Hash[:0], bs...)\<close>: on a \<^verbatim>\<open>nil\<close> slice, appending nothing leaves \<^verbatim>\<open>nil\<close>; otherwise the
  result holds exactly the appended bytes.
\<close>

definition append_reset :: "byte list option \<Rightarrow> byte list \<Rightarrow> byte list option" where
  "append_reset h bs = (case h of None \<Rightarrow> (if bs = [] then None else Some bs) | Some old \<Rightarrow> Some bs)"

definition GenericClaim_step :: "byte list \<Rightarrow> nat \<Rightarrow> GenericClaim \<Rightarrow> GenericClaim step" where
  "GenericClaim_step dAtA iNdEx0 m =
     (let preIndex = iNdEx0
      in case varint_loop dAtA iNdEx0 0 (0 :: uint64) of
           (wire, iNdEx, Some err) \<Rightarrow> Return m (Some err)
         | (wire, iNdEx, None) \<Rightarrow>
             (let fieldNum = (ucast (drop_bit 3 wire) :: int32);
                  wireType = unat (wire AND 0x7)
              in if wireType = 4 then Return m (Some (ErrWiretypeEndGroup ''GenericClaim''))
                 else if sint fieldNum \<le> 0
                   then Return m (Some (ErrIllegalTag ''GenericClaim'' fieldNum wire))
                 else if fieldNum = 1 then
                   (if wireType \<noteq> 0 then Return m (Some (ErrWrongWireType ''EventNonce'' wireType))
                    else case varint_loop dAtA iNdEx 0 (0 :: uint64) of
                           (v, iNdEx, Some err) \<Rightarrow> Return (m\<lparr>EventNonce := v\<rparr>) (Some err)
                         | (v, iNdEx, None) \<Rightarrow> Continue iNdEx (m\<lparr>EventNonce := v\<rparr>))
                 else if fieldNum = 2 then
                   (if wireType \<noteq> 0 then Return m (Some (ErrWrongWireType ''ClaimType'' wireType))
                    else case varint_loop dAtA iNdEx 0 (0 :: int32) of
                           (v, iNdEx, Some err) \<Rightarrow> Return (m\<lparr>ClaimType := v\<rparr>) (Some err)
                         | (v, iNdEx, None) \<Rightarrow> Continue iNdEx (m\<lparr>ClaimType := v\<rparr>))
                 else if fieldNum = 3 then
                   (if wireType \<noteq> 2 then Return m (Some (ErrWrongWireType ''Hash'' wireType))
                    else case varint_loop dAtA iNdEx 0 (0 :: uint64) of
                           (byteLen64, iNdEx, Some err) \<Rightarrow> Return m (Some err)
                         | (byteLen64, iNdEx, None) \<Rightarrow>
                             (let byteLen = sint byteLen64
                              in if byteLen < 0 then Return m (Some ErrInvalidLengthTypes)
                                 else let postIndex = int64 (int iNdEx + byteLen)
                                      in if postIndex < 0 then Return m (Some ErrInvalidLengthTypes)
                                         else if postIndex > len dAtA
                                           then Return m (Some ErrUnexpectedEOF)
                                         else
                                           (let h = append_reset (Hash m)
                                                      (slice dAtA iNdEx (nat postIndex));
                                                h = (if h = None then Some [] else h)
                                            in Continue (nat postIndex) (m\<lparr>Hash := h\<rparr>))))
                 else if fieldNum = 4 then
                   (if wireType \<noteq> 2
                      then Return m (Some (ErrWrongWireType ''EventClaimer'' wireType))
                    else case varint_loop dAtA iNdEx 0 (0 :: uint64) of
                           (stringLen, iNdEx, Some err) \<Rightarrow> Return m (Some err)
                         | (stringLen, iNdEx, None) \<Rightarrow>
                             (let intStringLen = sint stringLen
                              in if intStringLen < 0 then Return m (Some ErrInvalidLengthTypes)
                                 else let postIndex = int64 (int iNdEx + intStringLen)
                                      in if postIndex < 0 then Return m (Some ErrInvalidLengthTypes)
                                         else if postIndex > len dAtA
                                           then Return m (Some ErrUnexpectedEOF)
                                         else Continue (nat postIndex)
                                                (m\<lparr>EventClaimer :=
                                                     slice dAtA iNdEx (nat postIndex)\<rparr>)))
                 else skip_unknown dAtA preIndex m))"

lemma GenericClaim_step_progress:
  assumes st: "GenericClaim_step dAtA i m = Continue i' m'" and lt: "int i < len dAtA"
  shows "i < i'"
proof -
  obtain wire i1 e1 where v: "varint_loop dAtA i 0 (0 :: uint64) = (wire, i1, e1)"
    by (cases "varint_loop dAtA i 0 (0 :: uint64)") auto
  with st have e1: "e1 = None"
    by (auto simp: GenericClaim_step_def split: option.splits)
  from varint_loop_index [OF v [unfolded e1]] have i1: "i < i1" "int i1 \<le> len dAtA"
    by simp_all
  define fieldNum where "fieldNum = (ucast (drop_bit 3 wire) :: int32)"
  consider "fieldNum = 1" | "fieldNum = 2" | "fieldNum = 3" | "fieldNum = 4"
    | "fieldNum \<noteq> 1 \<and> fieldNum \<noteq> 2 \<and> fieldNum \<noteq> 3 \<and> fieldNum \<noteq> 4" by blast
  then show ?thesis
  proof cases
    case 1
    with st v e1 obtain w j where "varint_loop dAtA i1 0 (0 :: uint64) = (w, j, None)"
      and "i' = j"
      by (auto simp: GenericClaim_step_def Let_def fieldNum_def
          split: if_splits prod.splits option.splits)
    with varint_loop_index [of dAtA i1 0 "0 :: uint64" w j] i1 show ?thesis by simp
  next
    case 2
    with st v e1 obtain w j where "varint_loop dAtA i1 0 (0 :: int32) = (w, j, None)"
      and "i' = j"
      by (auto simp: GenericClaim_step_def Let_def fieldNum_def
          split: if_splits prod.splits option.splits)
    with varint_loop_index [of dAtA i1 0 "0 :: int32" w j] i1 show ?thesis by simp
  next
    case 3
    with st v e1 obtain w j where r: "varint_loop dAtA i1 0 (0 :: uint64) = (w, j, None)"
      and s: "\<not> sint w < 0" and nn: "\<not> int64 (int j + sint w) < 0"
      and e: "i' = nat (int64 (int j + sint w))"
      by (auto simp: GenericClaim_step_def Let_def fieldNum_def
          split: if_splits prod.splits option.splits)
    from length_delimited_progress [OF r s nn] e i1(1) show ?thesis by simp
  next
    case 4
    with st v e1 obtain w j where r: "varint_loop dAtA i1 0 (0 :: uint64) = (w, j, None)"
      and s: "\<not> sint w < 0" and nn: "\<not> int64 (int j + sint w) < 0"
      and e: "i' = nat (int64 (int j + sint w))"
      by (auto simp: GenericClaim_step_def Let_def fieldNum_def
          split: if_splits prod.splits option.splits)
    from length_delimited_progress [OF r s nn] e i1(1) show ?thesis by simp
  next
    case 5
    with st v e1 have "skip_unknown dAtA i m = Continue i' m'"
      by (auto simp: GenericClaim_step_def Let_def fieldNum_def split: if_splits)
    from skip_unknown_progress [OF this lt] show ?thesis .
  qed
qed

text \<open>The loop of \<^verbatim>\<open>GenericClaim.Unmarshal\<close> and the check after it.\<close>

function GenericClaim_loop ::
  "byte list \<Rightarrow> nat \<Rightarrow> GenericClaim \<Rightarrow> GenericClaim \<times> error option" where
  "GenericClaim_loop dAtA iNdEx m =
     (if int iNdEx < len dAtA then
        (case GenericClaim_step dAtA iNdEx m of
           Return m' err \<Rightarrow> (m', err)
         | Continue iNdEx' m' \<Rightarrow> GenericClaim_loop dAtA iNdEx' m')
      else if int iNdEx > len dAtA then (m, Some ErrUnexpectedEOF)
      else (m, None))"
  by pat_completeness auto
termination
  by (relation "measure (\<lambda>(d, i, m). nat (len d - int i))")
    (auto dest: GenericClaim_step_progress)

declare GenericClaim_loop.simps [simp del]

definition GenericClaim_Unmarshal ::
  "GenericClaim \<Rightarrow> byte list \<Rightarrow> GenericClaim \<times> error option" where
  "GenericClaim_Unmarshal m dAtA = GenericClaim_loop dAtA 0 m"


section \<open>The size of a varint\<close>

text \<open>
  The bytes that the loop of \<^verbatim>\<open>encodeVarintTypes\<close> stores, in address order.
\<close>

function varint_bytes :: "uint64 \<Rightarrow> byte list" where
  "varint_bytes v =
     (if v \<ge> 0x80 then ucast (v AND 0x7f OR 0x80) # varint_bytes (drop_bit 7 v) else [ucast v])"
  by pat_completeness auto
termination
  by (relation "measure unat") (auto simp: drop_bit_7_less)

declare varint_bytes.simps [simp del]

lemma bit_len_pos: "0 < n \<Longrightarrow> bit_len n = Suc (bit_len (n div 2))"
  by (subst bit_len.simps) simp

lemma bit_len_0: "bit_len 0 = 0"
  by (subst bit_len.simps) simp

lemma bit_len_floorlog: "bit_len n = floorlog 2 n"
proof (induction n rule: bit_len.induct)
  case (1 n)
  show ?case
  proof (cases "n = 0")
    case True
    then show ?thesis by (simp add: floorlog_def bit_len_0)
  next
    case False
    with 1 show ?thesis
      by (subst bit_len.simps, subst compute_floorlog) simp
  qed
qed

lemma bit_len_div_power: "2 ^ k \<le> n \<Longrightarrow> bit_len n = k + bit_len (n div 2 ^ k)"
proof (induction k arbitrary: n)
  case 0
  then show ?case by simp
next
  case (Suc k)
  from Suc.prems have pos: "0 < n"
    by (metis less_le_trans zero_less_numeral zero_less_power)
  from Suc.prems have "2 ^ k \<le> n div 2" by simp
  from Suc.IH [OF this] have "bit_len (n div 2) = k + bit_len (n div 2 div 2 ^ k)" .
  also have "n div 2 div 2 ^ k = n div 2 ^ Suc k" by (simp add: div_mult2_eq)
  finally show ?case using bit_len_pos [OF pos] by simp
qed

lemma bit_len_div128: "128 \<le> n \<Longrightarrow> bit_len n = 7 + bit_len (n div 128)"
  using bit_len_div_power [of 7 n] by simp

lemma bit_len_le: "n < 2 ^ k \<Longrightarrow> bit_len n \<le> k"
proof (induction k arbitrary: n)
  case 0
  then show ?case by (simp add: bit_len_0)
next
  case (Suc k)
  show ?case
  proof (cases "n = 0")
    case True
    then show ?thesis by (simp add: bit_len_0)
  next
    case False
    from Suc.prems have "n div 2 < 2 ^ k" by simp
    from Suc.IH [OF this] False show ?thesis by (simp add: bit_len_pos)
  qed
qed

lemma bit_len_or_1: "0 < n \<Longrightarrow> bit_len (n + of_bool (even n)) = bit_len n"
  by (cases "even n") (auto simp: bit_len_pos elim!: evenE)

lemma unat_or_1: "unat (v OR 1 :: uint64) = unat v + of_bool (even (unat v))"
proof -
  have "unat (v OR 1) = unat v OR unat (1 :: uint64)" by (rule unsigned_or_eq)
  also have "\<dots> = unat v OR 1" by simp
  also have "\<dots> = unat v + of_bool (even (unat v))" by (rule or_one_eq)
  finally show ?thesis .
qed

lemma Len64_or_1: "v \<noteq> 0 \<Longrightarrow> Len64 (v OR 1) = Len64 v"
  by (simp add: Len64_def unat_or_1 bit_len_or_1 unat_gt_0 del: of_bool_eq_iff)

lemma sovTypes_small: "v < 0x80 \<Longrightarrow> sovTypes v = 1"
proof -
  assume v: "v < 0x80"
  then have "unat v < 128" by (simp add: word_less_nat_alt)
  then have "unat v + of_bool (even (unat v)) < 2 ^ 7" by (cases "even (unat v)") auto
  then have "unat (v OR 1) < 2 ^ 7" by (simp only: unat_or_1)
  from bit_len_le [OF this] have u: "Len64 (v OR 1) \<le> 7" by (simp add: Len64_def)
  have "0 < unat (v OR 1)" by (cases "even (unat v)") (auto simp: unat_or_1 intro: odd_pos)
  then have "0 < Len64 (v OR 1)" by (simp add: Len64_def bit_len_pos)
  with u show ?thesis by (simp add: sovTypes_def)
qed

lemma sovTypes_large: "0x80 \<le> v \<Longrightarrow> sovTypes v = Suc (sovTypes (drop_bit 7 v))"
proof -
  assume v: "0x80 \<le> v"
  then have n: "128 \<le> unat v" by (simp add: word_le_nat_alt)
  then have v0: "v \<noteq> 0" by auto
  from n have "0 < unat v div 128" by (simp add: div_greater_zero_iff)
  then have "0 < unat (drop_bit 7 v)" by (simp add: drop_bit_eq_div unat_div)
  then have d0: "drop_bit 7 v \<noteq> 0" by auto
  have "Len64 (v OR 1) = Len64 v" using v0 by (rule Len64_or_1)
  also have "\<dots> = 7 + bit_len (unat v div 128)"
    using bit_len_div128 [OF n] by (simp add: Len64_def)
  also have "unat v div 128 = unat (drop_bit 7 v)"
    by (simp add: drop_bit_eq_div unat_div)
  also have "bit_len (unat (drop_bit 7 v)) = Len64 (drop_bit 7 v OR 1)"
    using Len64_or_1 [OF d0] by (simp add: Len64_def)
  finally show ?thesis by (simp add: sovTypes_def)
qed

lemma length_varint_bytes: "length (varint_bytes v) = sovTypes v"
proof (induction v rule: varint_bytes.induct)
  case (1 v)
  show ?case
  proof (cases "0x80 \<le> v")
    case True
    with 1 show ?thesis by (subst varint_bytes.simps) (simp add: sovTypes_large)
  next
    case False
    then show ?thesis by (subst varint_bytes.simps) (simp add: sovTypes_small)
  qed
qed

lemma sovTypes_le_10: "sovTypes v \<le> 10"
proof -
  have "unat (v OR 1) < 2 ^ 64" using unsigned_less [of "v OR 1"] by simp
  from bit_len_le [OF this] show ?thesis by (simp add: sovTypes_def Len64_def)
qed

lemma sovTypes_pos: "0 < sovTypes v"
  by (cases "0x80 \<le> v") (simp_all add: sovTypes_large sovTypes_small)

lemma ceil_div7: "nat \<lceil>real n / 7\<rceil> = (n + 6) div 7"
proof -
  have "\<lceil>real n / 7\<rceil> = \<lceil>of_int (int n) / (of_int 7 :: real)\<rceil>" by simp
  also have "\<dots> = - (- int n div 7)" by (rule ceiling_divide_eq_div)
  also have "\<dots> = (int n + 6) div 7" by presburger
  finally show ?thesis by (simp add: nat_div_distrib nat_add_distrib)
qed


lemma Len64_max: "Len64 (v OR 1) = floorlog 2 (unat (max v 1))"
proof (cases "v = 0")
  case True
  have "unat (0 OR 1 :: uint64) = 1" by simp
  with True show ?thesis by (simp add: Len64_def bit_len_floorlog max_def)
next
  case False
  then have "0 < unat v" by (simp add: unat_gt_0)
  then have "1 \<le> v" by (simp add: word_le_nat_alt)
  then have "max v 1 = v" by (simp add: max_def)
  with Len64_or_1 [OF False] show ?thesis by (simp add: Len64_def bit_len_floorlog)
qed


lemma store_at: "store (A @ x # R) (int (length A)) b = Some (A @ b # R)"
  by (simp add: store_def)

lemma encodeVarint_loop_bytes:
  "length old = sovTypes v \<Longrightarrow>
   encodeVarint_loop (A @ old @ B) (int (length A)) v
     = Some (A @ varint_bytes v @ B, int (length A) + int (sovTypes v) - 1)"
proof (induction v arbitrary: A old rule: varint_bytes.induct)
  case (1 v)
  show ?case
  proof (cases "0x80 \<le> v")
    case True
    define b :: byte where "b = ucast (v AND 0x7f OR 0x80)"
    from True "1.prems" obtain x old' where old: "old = x # old'"
      and l: "length old' = sovTypes (drop_bit 7 v)"
      by (cases old) (simp_all add: sovTypes_large [OF True])
    have st: "store (A @ old @ B) (int (length A)) b = Some ((A @ [b]) @ old' @ B)"
      using store_at [of A x "old' @ B" b] by (simp add: old)
    have ih: "encodeVarint_loop ((A @ [b]) @ old' @ B) (int (length (A @ [b]))) (drop_bit 7 v)
          = Some ((A @ [b]) @ varint_bytes (drop_bit 7 v) @ B,
               int (length (A @ [b])) + int (sovTypes (drop_bit 7 v)) - 1)"
      using True l unfolding b_def by (rule "1.IH")
    have vb: "varint_bytes v = b # varint_bytes (drop_bit 7 v)"
      using True by (subst varint_bytes.simps) (simp add: b_def)
    have "encodeVarint_loop (A @ old @ B) (int (length A)) v
        = encodeVarint_loop ((A @ [b]) @ old' @ B) (int (length A) + 1) (drop_bit 7 v)"
      using True st by (subst encodeVarint_loop.simps) (simp add: b_def)
    also have "int (length A) + 1 = int (length (A @ [b]))" by simp
    finally show ?thesis
      by (simp only: ih vb) (simp add: sovTypes_large [OF True])
  next
    case False
    then have "v < 0x80" by simp
    note small = sovTypes_small [OF this]
    from "1.prems" obtain x where old: "old = [x]"
      by (cases old) (simp_all add: small)
    have st: "store (A @ old @ B) (int (length A)) (ucast v) = Some (A @ [ucast v] @ B)"
      using store_at [of A x B "ucast v"] by (simp add: old)
    have vb: "varint_bytes v = [ucast v]"
      using False by (subst varint_bytes.simps) simp
    have "encodeVarint_loop (A @ old @ B) (int (length A)) v
        = Some (A @ [ucast v] @ B, int (length A))"
      using False st by (subst encodeVarint_loop.simps) simp
    then show ?thesis by (simp add: vb small)
  qed
qed

lemma encodeVarintTypes_bytes:
  assumes "sovTypes v \<le> length X"
  shows "encodeVarintTypes (X @ S) (int (length X)) v
     = Some (take (length X - sovTypes v) X @ varint_bytes v @ S,
             int (length X) - int (sovTypes v))"
proof -
  define k where "k = length X - sovTypes v"
  have X: "X = take k X @ drop k X" by simp
  have lk: "length (take k X) = k" and ld: "length (drop k X) = sovTypes v"
    using assms by (simp_all add: k_def)
  have ik: "int (length X) - int (sovTypes v) = int (length (take k X))"
    using assms by (simp add: k_def)
  have "encodeVarint_loop (take k X @ drop k X @ S) (int (length (take k X))) v
        = Some (take k X @ varint_bytes v @ S, int (length (take k X)) + int (sovTypes v) - 1)"
    using ld by (rule encodeVarint_loop_bytes)
  then have "encodeVarint_loop (X @ S) (int (length X) - int (sovTypes v)) v
        = Some (take k X @ varint_bytes v @ S, int (length (take k X)) + int (sovTypes v) - 1)"
    by (simp only: ik append_assoc [symmetric] append_take_drop_id)
  then show ?thesis
    by (simp add: encodeVarintTypes_def k_def)
qed

text \<open>
  C4. For every \<^verbatim>\<open>v: uint64\<close>, \<^verbatim>\<open>sovTypes(v)\<close> is the ceiling of a seventh of the bit length of
  \<open>max v 1\<close> (the bit length being \<open>floorlog 2\<close>), so that it is 1 for 0 and 127, 2 for 128 and 10
  for \<open>2 ^ 63\<close>; and \<^verbatim>\<open>encodeVarintTypes\<close>, called with room for that many bytes below \<open>offset\<close>,
  writes exactly the \<open>sovTypes v\<close> bytes below \<open>offset\<close>: it returns \<open>offset - sovTypes v\<close>, the
  last byte its loop stores is at \<open>offset - 1\<close>, and the rest of the buffer is unchanged.
\<close>

theorem C4_varint_length_law:
  "sovTypes v = nat \<lceil>real (floorlog 2 (unat (max v 1))) / 7\<rceil>
   \<and> sovTypes 0 = 1 \<and> sovTypes 127 = 1 \<and> sovTypes 128 = 2 \<and> sovTypes (2 ^ 63) = 10
   \<and> (int (sovTypes v) \<le> offset \<and> offset \<le> int (length dAtA) \<longrightarrow>
        encodeVarintTypes dAtA offset v
          = Some (take (nat offset - sovTypes v) dAtA @ varint_bytes v @ drop (nat offset) dAtA,
                  offset - int (sovTypes v))
        \<and> encodeVarint_loop dAtA (offset - int (sovTypes v)) v
          = Some (take (nat offset - sovTypes v) dAtA @ varint_bytes v @ drop (nat offset) dAtA,
                  offset - 1)
        \<and> length (varint_bytes v) = sovTypes v)"
proof -
  have formula: "sovTypes v = nat \<lceil>real (floorlog 2 (unat (max v 1))) / 7\<rceil>"
    by (simp only: ceil_div7 sovTypes_def Len64_max)
  have examples: "sovTypes 0 = 1" "sovTypes 127 = 1" "sovTypes 128 = 2" "sovTypes (2 ^ 63) = 10"
    by (simp_all add: sovTypes_def Len64_def bit_len.simps)
  have writes: "encodeVarintTypes dAtA offset v
          = Some (take (nat offset - sovTypes v) dAtA @ varint_bytes v @ drop (nat offset) dAtA,
                  offset - int (sovTypes v))
        \<and> encodeVarint_loop dAtA (offset - int (sovTypes v)) v
          = Some (take (nat offset - sovTypes v) dAtA @ varint_bytes v @ drop (nat offset) dAtA,
                  offset - 1)"
    if room: "int (sovTypes v) \<le> offset" "offset \<le> int (length dAtA)"
  proof -
    define X where "X = take (nat offset) dAtA"
    define S where "S = drop (nat offset) dAtA"
    define k where "k = length X - sovTypes v"
    from room have lX: "int (length X) = offset" and d: "dAtA = X @ S"
      and sX: "sovTypes v \<le> length X"
      by (simp_all add: X_def S_def)
    from room have nX: "length X = nat offset" by (simp add: X_def)
    have "take k X = take (min k (nat offset)) dAtA" by (simp add: X_def)
    also have "min k (nat offset) = nat offset - sovTypes v" by (simp add: k_def nX)
    finally have tk: "take (nat offset - sovTypes v) dAtA = take k X" by simp
    have ld: "length (drop k X) = sovTypes v" and ik: "offset - int (sovTypes v) = int (length (take k X))"
      using sX lX by (simp_all add: k_def)
    have split: "take k X @ drop k X @ S = dAtA" by (simp add: d)
    have "encodeVarint_loop (take k X @ drop k X @ S) (int (length (take k X))) v
        = Some (take k X @ varint_bytes v @ S, int (length (take k X)) + int (sovTypes v) - 1)"
      using ld by (rule encodeVarint_loop_bytes)
    then have loop: "encodeVarint_loop dAtA (offset - int (sovTypes v)) v
        = Some (take k X @ varint_bytes v @ S, offset - 1)"
      by (simp only: split ik [symmetric]) simp
    from encodeVarintTypes_bytes [OF sX, of S] have "encodeVarintTypes dAtA offset v
        = Some (take k X @ varint_bytes v @ S, offset - int (sovTypes v))"
      by (simp add: d lX k_def)
    with loop show ?thesis by (simp add: tk S_def)
  qed
  from formula examples writes length_varint_bytes [of v] show ?thesis by blast
qed

theorem C4_varint_length_law_witness:
  "int (sovTypes 300) \<le> 3 \<and> 3 \<le> int (length [0, 0, 0, 0 :: byte])
   \<and> sovTypes 300 = 2
   \<and> encodeVarintTypes [0, 0, 0, 0] 3 300 = Some ([0, 0xAC, 0x02, 0], 1)
   \<and> encodeVarint_loop [0, 0, 0, 0] 1 300 = Some ([0, 0xAC, 0x02, 0], 2)
   \<and> length (varint_bytes 300) = 2"
  using C4_varint_length_law [of 300 3 "[0, 0, 0, 0]"]
  by (simp add: sovTypes_def Len64_def bit_len.simps varint_bytes.simps)

section \<open>Decoding what the encoder wrote: varints\<close>

lemma bit_127: "bit (127 :: int) n \<longleftrightarrow> n < 7"
proof -
  have "(127 :: int) = mask 7" by (simp add: mask_eq_exp_minus_1)
  then show ?thesis by (simp only: bit_mask_iff) simp
qed

lemma bit_128: "bit (128 :: int) n \<longleftrightarrow> n = 7"
proof -
  have "(128 :: int) = 2 ^ 7" by simp
  then show ?thesis by (simp only: bit_exp_iff) auto
qed

lemma mask7: "(0x7f :: 'a::len word) = mask 7"
  by (simp add: mask_eq_exp_minus_1)

lemma low7_byte:
  "(ucast ((ucast (v AND 0x7f OR 0x80 :: uint64) :: byte) AND 0x7f) :: 'a::len word) = ucast (v AND 0x7f)"
  by (rule bit_word_eqI) (auto simp add: bit_simps bit_127 bit_128)

lemma cont_byte: "\<not> (ucast (v AND 0x7f OR 0x80 :: uint64) :: byte) < 0x80"
proof
  define b :: byte where "b = ucast (v AND 0x7f OR 0x80 :: uint64)"
  assume "(ucast (v AND 0x7f OR 0x80 :: uint64) :: byte) < 0x80"
  then have "b < 2 ^ 7" by (simp add: b_def)
  then have "b AND mask 7 = b" by (rule less_mask_eq)
  then have "bit (b AND mask 7) 7 \<longleftrightarrow> bit b 7" by simp
  then show False by (simp add: b_def bit_simps bit_127 bit_128)
qed

lemma final_byte:
  assumes "(v :: uint64) < 0x80"
  shows "(ucast v :: byte) < 0x80" and "(ucast ((ucast v :: byte) AND 0x7f) :: 'a::len word) = ucast v"
proof -
  from assms have "v < 2 ^ 7" by simp
  then have v: "v AND mask 7 = v" by (rule less_mask_eq)
  have "(ucast v :: byte) AND mask 7 = ucast v"
    by (rule bit_word_eqI) (subst (2) v [symmetric], auto simp add: bit_simps)
  moreover have "(ucast v :: byte) AND mask 7 < 2 ^ 7"
    by (rule and_mask_less') simp
  ultimately have "(ucast v :: byte) < 2 ^ 7" by simp
  then show "(ucast v :: byte) < 0x80" by simp
  show "(ucast ((ucast v :: byte) AND 0x7f) :: 'a word) = ucast v"
    unfolding mask7
    by (rule bit_word_eqI) (subst (2) v [symmetric], auto simp add: bit_simps)
qed

lemma split7: "push_bit s (v AND 0x7f) OR push_bit (s + 7) (drop_bit 7 v) = push_bit s (v :: 'a::len word)"
proof -
  have "(v AND mask 7) OR push_bit 7 (drop_bit 7 v) = v"
  proof (rule bit_word_eqI)
    fix n assume "n < LENGTH('a)"
    then show "bit (v AND mask 7 OR push_bit 7 (drop_bit 7 v)) n \<longleftrightarrow> bit v n"
      by (cases "n < 7") (auto simp add: bit_simps)
  qed
  then have "push_bit s ((v AND mask 7) OR push_bit 7 (drop_bit 7 v)) = push_bit s v" by simp
  then show ?thesis
    by (simp add: push_bit_or push_bit_push_bit mask7 add.commute)
qed


lemma split7_ucast:
  "push_bit s (ucast (v AND 0x7f) :: 'a::len word) OR push_bit (s + 7) (ucast (drop_bit 7 v))
     = push_bit s (ucast (v :: uint64))"
proof (rule bit_word_eqI)
  fix n assume "n < LENGTH('a)"
  then show "bit (push_bit s (ucast (v AND 0x7f) :: 'a word) OR push_bit (s + 7) (ucast (drop_bit 7 v))) n
      \<longleftrightarrow> bit (push_bit s (ucast v) :: 'a word) n"
    unfolding mask7
    by (cases "n - s < 7") (auto simp add: bit_simps)
qed

lemma varint_bytes_large:
  "0x80 \<le> v \<Longrightarrow> varint_bytes v = ucast (v AND 0x7f OR 0x80) # varint_bytes (drop_bit 7 v)"
  by (subst varint_bytes.simps) simp

lemma varint_bytes_small: "v < 0x80 \<Longrightarrow> varint_bytes v = [ucast v]"
  by (subst varint_bytes.simps) (simp add: linorder_not_le [symmetric])

lemma varint_loop_byte:
  assumes "length (pre @ b # rest) < 2 ^ 63" and "s < 64"
  shows "varint_loop (pre @ b # rest) (length pre) s (acc :: 'a::len word) =
     (if b < 0x80 then (acc OR push_bit s (ucast (b AND 0x7f)), length pre + 1, None)
      else varint_loop (pre @ b # rest) (length pre + 1) (s + 7)
             (acc OR push_bit s (ucast (b AND 0x7f))))"
proof -
  from assms(1) have "len (pre @ b # rest) = int (length (pre @ b # rest))" by (rule len_small)
  then have "\<not> len (pre @ b # rest) \<le> int (length pre)" by simp
  with assms(2) show ?thesis
    by (subst varint_loop.simps) (simp add: Let_def)
qed

lemma varint_loop_canonical:
  assumes "length (pre @ varint_bytes v @ rest) < 2 ^ 63" and "s + 7 * (sovTypes v - 1) < 64"
  shows "varint_loop (pre @ varint_bytes v @ rest) (length pre) s (acc :: 'a::len word)
     = (acc OR push_bit s (ucast v), length pre + sovTypes v, None)"
  using assms
proof (induction v arbitrary: pre s acc rule: varint_bytes.induct)
  case (1 v)
  show ?case
  proof (cases "0x80 \<le> v")
    case True
    define b :: byte where "b = ucast (v AND 0x7f OR 0x80)"
    define v' where "v' = drop_bit 7 v"
    have vb: "varint_bytes v = b # varint_bytes v'"
      using True by (simp add: varint_bytes_large b_def v'_def)
    have sv: "sovTypes v = Suc (sovTypes v')"
      using True by (simp add: sovTypes_large [OF True] v'_def)
    have buf: "pre @ varint_bytes v @ rest = (pre @ [b]) @ varint_bytes v' @ rest"
      by (simp add: vb)
    from "1.prems"(1) have l1: "length (pre @ b # varint_bytes v' @ rest) < 2 ^ 63"
      by (simp add: vb)
    from "1.prems"(2) sv have s: "s < 64" by simp
    have l2: "length ((pre @ [b]) @ varint_bytes v' @ rest) < 2 ^ 63"
      using l1 by simp
    have s2: "s + 7 + 7 * (sovTypes v' - 1) < 64"
      using "1.prems"(2) sv sovTypes_pos [of v'] by simp
    have nb: "\<not> b < 0x80" unfolding b_def by (rule cont_byte)
    have "varint_loop (pre @ b # varint_bytes v' @ rest) (length pre) s acc
        = varint_loop (pre @ b # varint_bytes v' @ rest) (length pre + 1) (s + 7)
            (acc OR push_bit s (ucast (b AND 0x7f)))"
      using varint_loop_byte [OF l1 s, of acc] nb by simp
    also have "\<dots> = varint_loop ((pre @ [b]) @ varint_bytes v' @ rest) (length (pre @ [b])) (s + 7)
            (acc OR push_bit s (ucast (v AND 0x7f)))"
      by (simp add: b_def low7_byte)
    also have "\<dots> = ((acc OR push_bit s (ucast (v AND 0x7f))) OR push_bit (s + 7) (ucast v'),
                     length (pre @ [b]) + sovTypes v', None)"
      using True l2 s2 unfolding v'_def by (rule "1.IH")
    also have "(acc OR push_bit s (ucast (v AND 0x7f))) OR push_bit (s + 7) (ucast v')
        = acc OR push_bit s (ucast v)"
      by (simp add: v'_def or.assoc split7_ucast)
    finally show ?thesis by (simp add: vb sv)
  next
    case False
    then have small: "v < 0x80" by simp
    have vb: "varint_bytes v = [ucast v]" using small by (rule varint_bytes_small)
    from "1.prems"(1) have l1: "length (pre @ ucast v # rest) < 2 ^ 63" by (simp add: vb)
    from "1.prems"(2) have s: "s < 64" by simp
    have fb: "(ucast v :: byte) < 0x80"
      "(ucast ((ucast v :: byte) AND 0x7f) :: 'a word) = ucast v"
      using small by (rule final_byte)+
    from varint_loop_byte [OF l1 s, of acc] fb
    show ?thesis by (simp add: vb sovTypes_small [OF small])
  qed
qed


lemma varint_loop_truncated:
  assumes "k < sovTypes v" and "length (pre @ take k (varint_bytes v)) < 2 ^ 63"
    and "s + 7 * k < 64"
  shows "snd (snd (varint_loop (pre @ take k (varint_bytes v)) (length pre) s (acc :: 'a::len word)))
     = Some ErrUnexpectedEOF"
  using assms
proof (induction k arbitrary: v pre s acc)
  case 0
  from "0.prems"(2) have "len pre = int (length pre)" by (simp add: len_small)
  with "0.prems"(3) show ?case
    by (subst varint_loop.simps) simp
next
  case (Suc k)
  have large: "0x80 \<le> v"
  proof (rule ccontr)
    assume "\<not> 0x80 \<le> v"
    then have "v < 0x80" by simp
    from sovTypes_small [OF this] Suc.prems(1) show False by simp
  qed
  define b :: byte where "b = ucast (v AND 0x7f OR 0x80)"
  define v' where "v' = drop_bit 7 v"
  have vb: "varint_bytes v = b # varint_bytes v'"
    using large by (simp add: varint_bytes_large b_def v'_def)
  have sv: "sovTypes v = Suc (sovTypes v')"
    by (simp add: sovTypes_large [OF large] v'_def)
  have nb: "\<not> b < 0x80" unfolding b_def by (rule cont_byte)
  from Suc.prems(2) have l1: "length (pre @ b # take k (varint_bytes v')) < 2 ^ 63"
    by (simp add: vb)
  from Suc.prems(3) have s: "s < 64" by simp
  have k': "k < sovTypes v'" using Suc.prems(1) sv by simp
  have l2: "length ((pre @ [b]) @ take k (varint_bytes v')) < 2 ^ 63" using l1 by simp
  have s2: "s + 7 + 7 * k < 64" using Suc.prems(3) by simp
  have "varint_loop (pre @ b # take k (varint_bytes v')) (length pre) s acc
      = varint_loop ((pre @ [b]) @ take k (varint_bytes v')) (length (pre @ [b])) (s + 7)
          (acc OR push_bit s (ucast (b AND 0x7f)))"
    using varint_loop_byte [OF l1 s, of acc] nb by simp
  with Suc.IH [OF k' l2 s2] show ?case by (simp add: vb)
qed

lemma varint_loop_value:
  assumes "length (pre @ varint_bytes v @ rest) < 2 ^ 63"
  shows "varint_loop (pre @ varint_bytes v @ rest) (length pre) 0 (0 :: 'a::len word)
     = (ucast v, length pre + sovTypes v, None)"
proof -
  have "0 + 7 * (sovTypes v - 1) < 64" using sovTypes_le_10 [of v] by simp
  from varint_loop_canonical [OF assms this, of "0 :: 'a word"] show ?thesis by simp
qed

text \<open>A field's tag is a single byte below \<open>0x80\<close>, followed by the field's payload.\<close>

lemma read_tag:
  assumes "length (pre @ t # rest) < 2 ^ 63" and "t < 0x80"
  shows "varint_loop (pre @ t # rest) (length pre) 0 (0 :: uint64) = (ucast t, Suc (length pre), None)"
proof -
  from assms(2) have "t < 2 ^ 7" by simp
  then have "t AND mask 7 = t" by (rule less_mask_eq)
  then have "t AND 0x7f = t" by (simp add: mask7)
  with varint_loop_byte [OF assms(1), of 0 "0 :: uint64"] assms(2) show ?thesis by simp
qed

lemma read_value:
  assumes "length (pre @ t # varint_bytes v @ rest) < 2 ^ 63"
  shows "varint_loop (pre @ t # varint_bytes v @ rest) (Suc (length pre)) 0 (0 :: 'a::len word)
     = (ucast v, Suc (length pre + sovTypes v), None)"
  using varint_loop_value [of "pre @ [t]" v rest] assms by simp

lemma read_value_truncated:
  assumes "k < sovTypes v" and "length (pre @ t # take k (varint_bytes v)) < 2 ^ 63"
  shows "snd (snd (varint_loop (pre @ t # take k (varint_bytes v)) (Suc (length pre)) 0 (acc :: 'a::len word)))
     = Some ErrUnexpectedEOF"
proof -
  have "0 + 7 * k < 64" using assms(1) sovTypes_le_10 [of v] by simp
  from varint_loop_truncated [OF assms(1) _ this, of "pre @ [t]" acc] assms(2)
  show ?thesis by simp
qed


section \<open>Decoding a sequence of fields\<close>

text \<open>
  The three decoders run the same loop around their own switch. \<open>decoder_loop loop step\<close> says
  that \<open>loop\<close> is that loop around \<open>step\<close>; the facts below are then proved once for all three.
  A field of a record is given by the bytes it takes on the wire and by the assignment that
  decoding it makes to the receiver.
\<close>

definition decoder_loop ::
  "(byte list \<Rightarrow> nat \<Rightarrow> 'm \<Rightarrow> 'm \<times> error option) \<Rightarrow> (byte list \<Rightarrow> nat \<Rightarrow> 'm \<Rightarrow> 'm step) \<Rightarrow> bool" where
  "decoder_loop loop step \<longleftrightarrow>
     (\<forall>d i m. loop d i m =
        (if int i < len d then
           (case step d i m of Return m' err \<Rightarrow> (m', err) | Continue i' m' \<Rightarrow> loop d i' m')
         else if int i > len d then (m, Some ErrUnexpectedEOF)
         else (m, None)))"

definition decodes :: "(byte list \<Rightarrow> nat \<Rightarrow> 'm \<Rightarrow> 'm step) \<Rightarrow> byte list \<Rightarrow> ('m \<Rightarrow> 'm) \<Rightarrow> bool" where
  "decodes step F u \<longleftrightarrow>
     F \<noteq> [] \<and>
     (\<forall>pre rest m. length (pre @ F @ rest) < 2 ^ 63 \<longrightarrow>
        step (pre @ F @ rest) (length pre) m = Continue (length pre + length F) (u m))"

definition truncates :: "(byte list \<Rightarrow> nat \<Rightarrow> 'm \<Rightarrow> 'm step) \<Rightarrow> byte list \<Rightarrow> bool" where
  "truncates step F \<longleftrightarrow>
     (\<forall>pre k m. 0 < k \<longrightarrow> k < length F \<longrightarrow> length (pre @ F) < 2 ^ 63 \<longrightarrow>
        (\<exists>m'. step (pre @ take k F) (length pre) m = Return m' (Some ErrUnexpectedEOF)))"

definition wire :: "(byte list \<times> 'u) list \<Rightarrow> byte list" where
  "wire fs = concat (map fst fs)"

definition assign :: "(byte list \<times> ('m \<Rightarrow> 'm)) list \<Rightarrow> 'm \<Rightarrow> 'm" where
  "assign fs m = fold snd fs m"

lemma wire_simps [simp]:
  "wire [] = []" "wire (f # fs) = fst f @ wire fs" "wire (fs @ gs) = wire fs @ wire gs"
  by (simp_all add: wire_def)

lemma assign_simps [simp]:
  "assign [] m = m" "assign (f # fs) m = assign fs (snd f m)"
  "assign (fs @ gs) m = assign gs (assign fs m)"
  by (simp_all add: assign_def)

lemma loop_at_end:
  assumes "decoder_loop loop step" and "length d < 2 ^ 63"
  shows "loop d (length d) m = (m, None)"
proof -
  from assms(2) have "len d = int (length d)" by (rule len_small)
  with assms(1) show ?thesis by (simp add: decoder_loop_def)
qed

lemma loop_continue:
  assumes "decoder_loop loop step" and "length (pre @ F @ rest) < 2 ^ 63" and "decodes step F u"
  shows "loop (pre @ F @ rest) (length pre) m = loop (pre @ F @ rest) (length pre + length F) (u m)"
proof -
  from assms(2) have l: "len (pre @ F @ rest) = int (length (pre @ F @ rest))" by (rule len_small)
  from assms(3) have "F \<noteq> []" by (simp add: decodes_def)
  with l have lt: "int (length pre) < len (pre @ F @ rest)" by (cases F) simp_all
  from assms(2,3) have
    "step (pre @ F @ rest) (length pre) m = Continue (length pre + length F) (u m)"
    by (simp add: decodes_def)
  with lt assms(1) show ?thesis
    by (subst assms(1) [unfolded decoder_loop_def, rule_format]) simp
qed

lemma loop_fields:
  assumes "decoder_loop loop step" and "\<forall>f \<in> set fs. decodes step (fst f) (snd f)"
    and "length (pre @ wire fs @ rest) < 2 ^ 63"
  shows "loop (pre @ wire fs @ rest) (length pre) m
     = loop (pre @ wire fs @ rest) (length pre + length (wire fs)) (assign fs m)"
  using assms(2,3)
proof (induction fs arbitrary: pre m)
  case Nil
  then show ?case by simp
next
  case (Cons f fs)
  from Cons.prems(1) have f: "decodes step (fst f) (snd f)" by simp
  from Cons.prems(2) have l1: "length (pre @ fst f @ (wire fs @ rest)) < 2 ^ 63" by simp
  from Cons.prems(2) have l2: "length ((pre @ fst f) @ wire fs @ rest) < 2 ^ 63" by simp
  from Cons.prems(1) have fs: "\<forall>f \<in> set fs. decodes step (fst f) (snd f)" by simp
  have "loop (pre @ fst f @ (wire fs @ rest)) (length pre) m
      = loop (pre @ fst f @ (wire fs @ rest)) (length pre + length (fst f)) (snd f m)"
    using assms(1) l1 f by (rule loop_continue)
  also have "\<dots> = loop ((pre @ fst f) @ wire fs @ rest) (length (pre @ fst f)) (snd f m)"
    by simp
  also have "\<dots> = loop ((pre @ fst f) @ wire fs @ rest)
       (length (pre @ fst f) + length (wire fs)) (assign fs (snd f m))"
    using fs l2 by (rule Cons.IH)
  finally show ?case by (simp add: add.assoc)
qed

lemma decode_fields:
  assumes "decoder_loop loop step" and "\<forall>f \<in> set fs. decodes step (fst f) (snd f)"
    and "length (wire fs) < 2 ^ 63"
  shows "loop (wire fs) 0 m = (assign fs m, None)"
proof -
  from assms(3) have "length ([] @ wire fs @ []) < 2 ^ 63" by simp
  from loop_fields [OF assms(1,2) this, of m]
  have "loop (wire fs) 0 m = loop (wire fs) (length (wire fs)) (assign fs m)" by simp
  with loop_at_end [OF assms(1,3)] show ?thesis by simp
qed

lemma decode_truncated_field:
  assumes "decoder_loop loop step" and "\<forall>f \<in> set fs. decodes step (fst f) (snd f)"
    and "truncates step F" and "0 < k" and "k < length F"
    and "length (wire fs @ F) < 2 ^ 63"
  shows "snd (loop (wire fs @ take k F) 0 m) = Some ErrUnexpectedEOF"
proof -
  let ?d = "wire fs @ take k F"
  from assms(6) have l6: "length ?d < 2 ^ 63" by simp
  then have l: "length ([] @ wire fs @ take k F) < 2 ^ 63" by simp
  from loop_fields [OF assms(1,2) l, of m]
  have e: "loop ?d 0 m = loop ?d (length (wire fs)) (assign fs m)" by simp
  from l6 have "len ?d = int (length ?d)" by (rule len_small)
  with assms(4,5) have lt: "int (length (wire fs)) < len ?d" by simp
  from assms(3,4,5,6) obtain m' where
    "step ?d (length (wire fs)) (assign fs m) = Return m' (Some ErrUnexpectedEOF)"
    unfolding truncates_def by blast
  with lt have "loop ?d (length (wire fs)) (assign fs m) = (m', Some ErrUnexpectedEOF)"
    by (subst assms(1) [unfolded decoder_loop_def, rule_format]) simp
  with e show ?thesis by simp
qed

text \<open>A cut through the wire image of a list of fields falls on a boundary or inside one field.\<close>

lemma cut_fields:
  assumes "n < length (wire fs)" and "\<forall>f \<in> set fs. fst f \<noteq> []"
  shows "\<exists>j k. j < length fs \<and> k < length (fst (fs ! j))
            \<and> n = length (wire (take j fs)) + k
            \<and> take n (wire fs) = wire (take j fs) @ take k (fst (fs ! j))"
  using assms
proof (induction fs arbitrary: n)
  case Nil
  then show ?case by simp
next
  case (Cons f fs)
  show ?case
  proof (cases "n < length (fst f)")
    case True
    then have "0 < length (f # fs) \<and> n < length (fst ((f # fs) ! 0))
        \<and> n = length (wire (take 0 (f # fs))) + n
        \<and> take n (wire (f # fs)) = wire (take 0 (f # fs)) @ take n (fst ((f # fs) ! 0))"
      by simp
    then show ?thesis by blast
  next
    case False
    with Cons.prems(1) have n': "n - length (fst f) < length (wire fs)" by simp
    from Cons.prems(2) have "\<forall>f \<in> set fs. fst f \<noteq> []" by simp
    from Cons.IH [OF n' this] obtain j k where jk: "j < length fs" "k < length (fst (fs ! j))"
      "n - length (fst f) = length (wire (take j fs)) + k"
      "take (n - length (fst f)) (wire fs) = wire (take j fs) @ take k (fst (fs ! j))"
      by blast
    from False jk have "Suc j < length (f # fs) \<and> k < length (fst ((f # fs) ! Suc j))
        \<and> n = length (wire (take (Suc j) (f # fs))) + k
        \<and> take n (wire (f # fs)) = wire (take (Suc j) (f # fs)) @ take k (fst ((f # fs) ! Suc j))"
      by simp
    then show ?thesis by blast
  qed
qed


section \<open>The wire image of each field\<close>

text \<open>
  A scalar field is its tag byte and the varint of its value; a length-delimited field is its
  tag byte, the varint of its length and its bytes.
\<close>

definition varint_field :: "byte \<Rightarrow> uint64 \<Rightarrow> byte list" where
  "varint_field t v = t # varint_bytes v"

definition bytes_field :: "byte \<Rightarrow> byte list \<Rightarrow> byte list" where
  "bytes_field t bs = t # varint_bytes (of_nat (length bs)) @ bs"

lemma length_varint_field: "length (varint_field t v) = 1 + sovTypes v"
  by (simp add: varint_field_def length_varint_bytes)

lemma length_bytes_field:
  "length (bytes_field t bs) = 1 + length bs + sovTypes (of_nat (length bs))"
  by (simp add: bytes_field_def length_varint_bytes)

lemma tag_values:
  "(ucast (drop_bit 3 (ucast (0x08 :: byte) :: uint64)) :: int32) = 1"
  "(ucast (drop_bit 3 (ucast (0x10 :: byte) :: uint64)) :: int32) = 2"
  "(ucast (drop_bit 3 (ucast (0x12 :: byte) :: uint64)) :: int32) = 2"
  "(ucast (drop_bit 3 (ucast (0x18 :: byte) :: uint64)) :: int32) = 3"
  "(ucast (drop_bit 3 (ucast (0x1a :: byte) :: uint64)) :: int32) = 3"
  "(ucast (drop_bit 3 (ucast (0x22 :: byte) :: uint64)) :: int32) = 4"
  "unat ((ucast (0x08 :: byte) :: uint64) AND 0x7) = 0"
  "unat ((ucast (0x10 :: byte) :: uint64) AND 0x7) = 0"
  "unat ((ucast (0x12 :: byte) :: uint64) AND 0x7) = 2"
  "unat ((ucast (0x18 :: byte) :: uint64) AND 0x7) = 0"
  "unat ((ucast (0x1a :: byte) :: uint64) AND 0x7) = 2"
  "unat ((ucast (0x22 :: byte) :: uint64) AND 0x7) = 2"
  by simp_all

lemma int_bound: "n < 2 ^ 63 \<Longrightarrow> int n < 2 ^ 63"
  by simp

lemma sint_of_nat: "n < 2 ^ 63 \<Longrightarrow> sint (of_nat n :: uint64) = int n"
proof -
  assume n: "n < 2 ^ 63"
  then have "int n < 2 ^ 63" by (rule int_bound)
  then have "signed_take_bit 63 (int n) = int n"
    by (intro signed_take_bit_int_eq_self) simp_all
  then show ?thesis by (simp add: signed_of_nat)
qed

lemma slice_append:
  "slice (A @ bs @ rest) (length A) (length A + length bs) = bs"
  by (simp add: slice_def)

lemma read_length_delimited:
  fixes bs :: "byte list"
  defines "n \<equiv> (of_nat (length bs) :: uint64)"
  assumes l: "length (pre @ t # varint_bytes n @ bs @ rest) < 2 ^ 63"
  shows "varint_loop (pre @ t # varint_bytes n @ bs @ rest) (Suc (length pre)) 0 (0 :: uint64)
           = (n, Suc (length pre + sovTypes n), None)"
    and "sint n = int (length bs)"
    and "int64 (int (Suc (length pre + sovTypes n)) + int (length bs))
           = int (length pre + length (bytes_field t bs))"
    and "int (length pre + length (bytes_field t bs)) \<le> len (pre @ t # varint_bytes n @ bs @ rest)"
    and "slice (pre @ t # varint_bytes n @ bs @ rest) (Suc (length pre + sovTypes n))
           (length pre + length (bytes_field t bs)) = bs"
proof -
  let ?d = "pre @ t # varint_bytes n @ bs @ rest"
  from l have ld: "len ?d = int (length ?d)" by (rule len_small)
  from l have lb: "length bs < 2 ^ 63" by simp
  show "varint_loop ?d (Suc (length pre)) 0 (0 :: uint64) = (n, Suc (length pre + sovTypes n), None)"
    using read_value [OF l, where ?'a = 64] by simp
  show "sint n = int (length bs)" unfolding n_def using lb by (rule sint_of_nat)
  have tot: "length pre + length (bytes_field t bs) \<le> length ?d"
    by (simp add: length_bytes_field length_varint_bytes n_def)
  have "int (length ?d) < 2 ^ 63" using l by (rule int_bound)
  with tot have "int (length pre + length (bytes_field t bs)) < 2 ^ 63" by linarith
  then have "int64 (int (length pre + length (bytes_field t bs)))
      = int (length pre + length (bytes_field t bs))"
    by (intro int64_id) simp_all
  moreover have "int (Suc (length pre + sovTypes n)) + int (length bs)
      = int (length pre + length (bytes_field t bs))"
    by (simp add: length_bytes_field n_def)
  ultimately show "int64 (int (Suc (length pre + sovTypes n)) + int (length bs))
      = int (length pre + length (bytes_field t bs))" by (simp only:)
  show "int (length pre + length (bytes_field t bs)) \<le> len ?d"
    using tot ld by simp
  have "slice ((pre @ t # varint_bytes n) @ bs @ rest) (length (pre @ t # varint_bytes n))
          (length (pre @ t # varint_bytes n) + length bs) = bs"
    by (rule slice_append)
  then show "slice ?d (Suc (length pre + sovTypes n)) (length pre + length (bytes_field t bs)) = bs"
    by (simp add: length_bytes_field length_varint_bytes n_def add.commute add.left_commute)
qed


lemma truncated_varint_field:
  assumes "0 < k" and "k < length (varint_field t v)" and "length (pre @ varint_field t v) < 2 ^ 63"
  shows "\<exists>rest'. pre @ take k (varint_field t v) = pre @ t # rest'
      \<and> length (pre @ t # rest') < 2 ^ 63
      \<and> (\<exists>a j. varint_loop (pre @ t # rest') (Suc (length pre)) 0 (0 :: 'a::len word)
                   = (a, j, Some ErrUnexpectedEOF))"
proof -
  from assms(1) obtain k' where k: "k = Suc k'" by (cases k) auto
  have d: "pre @ take k (varint_field t v) = pre @ t # take k' (varint_bytes v)"
    by (simp add: k varint_field_def)
  from assms(2) have k': "k' < sovTypes v" by (simp add: k length_varint_field)
  from assms(3) have l: "length (pre @ t # take k' (varint_bytes v)) < 2 ^ 63"
    by (simp add: varint_field_def)
  from read_value_truncated [OF k' l, of "0 :: 'a word"]
  have "\<exists>a j. varint_loop (pre @ t # take k' (varint_bytes v)) (Suc (length pre)) 0
                 (0 :: 'a word) = (a, j, Some ErrUnexpectedEOF)"
    by (cases "varint_loop (pre @ t # take k' (varint_bytes v)) (Suc (length pre)) 0
                 (0 :: 'a word)") auto
  with d l show ?thesis by blast
qed

lemma truncated_bytes_field:
  fixes bs :: "byte list"
  defines "n \<equiv> (of_nat (length bs) :: uint64)"
  assumes "0 < k" and "k < length (bytes_field t bs)" and "length (pre @ bytes_field t bs) < 2 ^ 63"
  shows "\<exists>rest'. pre @ take k (bytes_field t bs) = pre @ t # rest'
      \<and> length (pre @ t # rest') < 2 ^ 63
      \<and> ((\<exists>a j. varint_loop (pre @ t # rest') (Suc (length pre)) 0 (0 :: uint64)
                   = (a, j, Some ErrUnexpectedEOF))
         \<or> (varint_loop (pre @ t # rest') (Suc (length pre)) 0 (0 :: uint64)
                   = (n, Suc (length pre + sovTypes n), None)
            \<and> sint n = int (length bs)
            \<and> int64 (int (Suc (length pre + sovTypes n)) + int (length bs))
                 = int (length pre + length (bytes_field t bs))
            \<and> len (pre @ t # rest') < int (length pre + length (bytes_field t bs))))"
proof -
  from assms(2) obtain k' where k: "k = Suc k'" by (cases k) auto
  define rest' where "rest' = take k' (varint_bytes n @ bs)"
  have d: "pre @ take k (bytes_field t bs) = pre @ t # rest'"
    by (simp add: k bytes_field_def rest'_def n_def)
  from assms(4) have lf: "length (pre @ t # varint_bytes n @ bs @ []) < 2 ^ 63"
    by (simp add: bytes_field_def n_def)
  from assms(3) have kl: "k' < sovTypes n + length bs"
    by (simp add: k length_bytes_field n_def)
  from assms(4) kl have ld: "length (pre @ t # rest') < 2 ^ 63"
    by (simp add: rest'_def bytes_field_def n_def length_varint_bytes)
  show ?thesis
  proof (cases "k' < sovTypes n")
    case True
    then have r: "rest' = take k' (varint_bytes n)"
      by (simp add: rest'_def length_varint_bytes)
    from ld have "length (pre @ t # take k' (varint_bytes n)) < 2 ^ 63" by (simp add: r)
    from read_value_truncated [OF True this, of "0 :: uint64"]
    have "\<exists>a j. varint_loop (pre @ t # rest') (Suc (length pre)) 0 (0 :: uint64)
                   = (a, j, Some ErrUnexpectedEOF)"
      unfolding r
      by (cases "varint_loop (pre @ t # take k' (varint_bytes n)) (Suc (length pre)) 0
                   (0 :: uint64)") auto
    with d ld show ?thesis by blast
  next
    case False
    then have r: "rest' = varint_bytes n @ take (k' - sovTypes n) bs"
      by (simp add: rest'_def length_varint_bytes)
    from ld have l2: "length (pre @ t # varint_bytes n @ take (k' - sovTypes n) bs) < 2 ^ 63"
      by (simp add: r)
    from read_value [OF l2, where ?'a = 64]
    have v: "varint_loop (pre @ t # rest') (Suc (length pre)) 0 (0 :: uint64)
        = (n, Suc (length pre + sovTypes n), None)"
      by (simp add: r)
    from read_length_delimited(2,3) [OF lf [unfolded n_def]]
    have s: "sint n = int (length bs)"
      and p: "int64 (int (Suc (length pre + sovTypes n)) + int (length bs))
                 = int (length pre + length (bytes_field t bs))"
      by (simp_all only: n_def)
    from ld have "len (pre @ t # rest') = int (length (pre @ t # rest'))" by (rule len_small)
    with False kl have "len (pre @ t # rest') < int (length pre + length (bytes_field t bs))"
      by (simp add: r length_bytes_field length_varint_bytes n_def)
    with d ld v s p show ?thesis by blast
  qed
qed

section \<open>BridgeValidator: its fields on the wire\<close>

lemma BridgeValidator_decodes_Power:
  "decodes BridgeValidator_step (varint_field 0x08 v) (\<lambda>m. m\<lparr>Power := v\<rparr>)"
  unfolding decodes_def
proof (intro conjI allI impI)
  show "varint_field 0x08 v \<noteq> []" by (simp add: varint_field_def)
next
  fix pre rest and m :: BridgeValidator
  assume "length (pre @ varint_field 0x08 v @ rest) < 2 ^ 63"
  then have l: "length (pre @ 0x08 # varint_bytes v @ rest) < 2 ^ 63"
    by (simp add: varint_field_def)
  have t: "varint_loop (pre @ 0x08 # varint_bytes v @ rest) (length pre) 0 (0 :: uint64)
      = (ucast (0x08 :: byte), Suc (length pre), None)"
    using l by (rule read_tag) simp
  have r: "varint_loop (pre @ 0x08 # varint_bytes v @ rest) (Suc (length pre)) 0 (0 :: uint64)
      = (ucast v, Suc (length pre + sovTypes v), None)"
    using l by (rule read_value)
  show "BridgeValidator_step (pre @ varint_field 0x08 v @ rest) (length pre) m
      = Continue (length pre + length (varint_field 0x08 v)) (m\<lparr>Power := v\<rparr>)"
    by (simp add: BridgeValidator_step_def varint_field_def t r length_varint_bytes)
qed

lemma BridgeValidator_decodes_EthereumAddress:
  "bs \<noteq> [] \<Longrightarrow>
   decodes BridgeValidator_step (bytes_field 0x12 bs) (\<lambda>m. m\<lparr>EthereumAddress := bs\<rparr>)"
  unfolding decodes_def
proof (intro conjI allI impI)
  show "bytes_field 0x12 bs \<noteq> []" by (simp add: bytes_field_def)
next
  fix pre rest and m :: BridgeValidator
  assume "length (pre @ bytes_field 0x12 bs @ rest) < 2 ^ 63"
  then have l: "length (pre @ 0x12 # varint_bytes (of_nat (length bs)) @ bs @ rest) < 2 ^ 63"
    by (simp add: bytes_field_def)
  have t: "varint_loop (pre @ 0x12 # varint_bytes (of_nat (length bs)) @ bs @ rest) (length pre) 0
      (0 :: uint64) = (ucast (0x12 :: byte), Suc (length pre), None)"
    using l by (rule read_tag) simp
  note r = read_length_delimited [OF l]
  have d: "pre @ bytes_field 0x12 bs @ rest
      = pre @ 0x12 # varint_bytes (of_nat (length bs)) @ bs @ rest"
    by (simp add: bytes_field_def)
  show "BridgeValidator_step (pre @ bytes_field 0x12 bs @ rest) (length pre) m
      = Continue (length pre + length (bytes_field 0x12 bs)) (m\<lparr>EthereumAddress := bs\<rparr>)"
    using r(4) unfolding d
    by (simp add: BridgeValidator_step_def t r(1,2,5) r(3) [simplified] Let_def nat_int_add)
qed


lemma BridgeValidator_truncates_Power:
  "truncates BridgeValidator_step (varint_field 0x08 v)"
  unfolding truncates_def
proof (intro allI impI)
  fix pre k and m :: BridgeValidator
  assume k: "0 < k" "k < length (varint_field 0x08 v)"
    and l: "length (pre @ varint_field 0x08 v) < 2 ^ 63"
  from truncated_varint_field [OF k l, where ?'a = 64] obtain rest' a j where
    d: "pre @ take k (varint_field 0x08 v) = pre @ 0x08 # rest'"
    and ld: "length (pre @ 0x08 # rest') < 2 ^ 63"
    and r: "varint_loop (pre @ 0x08 # rest') (Suc (length pre)) 0 (0 :: uint64)
          = (a, j, Some ErrUnexpectedEOF)" by blast
  from ld have t: "varint_loop (pre @ 0x08 # rest') (length pre) 0 (0 :: uint64)
      = (ucast (0x08 :: byte), Suc (length pre), None)"
    by (rule read_tag) simp
  have "BridgeValidator_step (pre @ take k (varint_field 0x08 v)) (length pre) m
      = Return (m\<lparr>Power := a\<rparr>) (Some ErrUnexpectedEOF)"
    unfolding d by (simp add: BridgeValidator_step_def t r)
  then show "\<exists>m'. BridgeValidator_step (pre @ take k (varint_field 0x08 v)) (length pre) m
      = Return m' (Some ErrUnexpectedEOF)" by blast
qed

lemma BridgeValidator_truncates_EthereumAddress:
  "truncates BridgeValidator_step (bytes_field 0x12 bs)"
  unfolding truncates_def
proof (intro allI impI)
  fix pre k and m :: BridgeValidator
  assume k: "0 < k" "k < length (bytes_field 0x12 bs)"
    and l: "length (pre @ bytes_field 0x12 bs) < 2 ^ 63"
  from truncated_bytes_field [OF k l] obtain rest' where
    d: "pre @ take k (bytes_field 0x12 bs) = pre @ 0x12 # rest'"
    and ld: "length (pre @ 0x12 # rest') < 2 ^ 63"
    and c: "(\<exists>a j. varint_loop (pre @ 0x12 # rest') (Suc (length pre)) 0 (0 :: uint64)
                   = (a, j, Some ErrUnexpectedEOF))
         \<or> (varint_loop (pre @ 0x12 # rest') (Suc (length pre)) 0 (0 :: uint64)
                   = (of_nat (length bs), Suc (length pre + sovTypes (of_nat (length bs))), None)
            \<and> sint (of_nat (length bs) :: uint64) = int (length bs)
            \<and> int64 (int (Suc (length pre + sovTypes (of_nat (length bs)))) + int (length bs))
                 = int (length pre + length (bytes_field 0x12 bs))
            \<and> len (pre @ 0x12 # rest') < int (length pre + length (bytes_field 0x12 bs)))"
    by blast
  from ld have t: "varint_loop (pre @ 0x12 # rest') (length pre) 0 (0 :: uint64)
      = (ucast (0x12 :: byte), Suc (length pre), None)"
    by (rule read_tag) simp
  from c have "BridgeValidator_step (pre @ 0x12 # rest') (length pre) m
      = Return m (Some ErrUnexpectedEOF)"
  proof
    assume "\<exists>a j. varint_loop (pre @ 0x12 # rest') (Suc (length pre)) 0 (0 :: uint64)
                   = (a, j, Some ErrUnexpectedEOF)"
    then obtain a j where "varint_loop (pre @ 0x12 # rest') (Suc (length pre)) 0 (0 :: uint64)
                   = (a, j, Some ErrUnexpectedEOF)" by blast
    then show ?thesis by (simp add: BridgeValidator_step_def t)
  next
    assume a: "varint_loop (pre @ 0x12 # rest') (Suc (length pre)) 0 (0 :: uint64)
                   = (of_nat (length bs), Suc (length pre + sovTypes (of_nat (length bs))), None)
            \<and> sint (of_nat (length bs) :: uint64) = int (length bs)
            \<and> int64 (int (Suc (length pre + sovTypes (of_nat (length bs)))) + int (length bs))
                 = int (length pre + length (bytes_field 0x12 bs))
            \<and> len (pre @ 0x12 # rest') < int (length pre + length (bytes_field 0x12 bs))"
    then have p: "int64 (int (Suc (length pre + sovTypes (of_nat (length bs)))) + int (length bs))
                 = int (length pre + length (bytes_field 0x12 bs))" by blast
    from a show ?thesis
      by (simp add: BridgeValidator_step_def t p [simplified] Let_def)
  qed
  then show "\<exists>m'. BridgeValidator_step (pre @ take k (bytes_field 0x12 bs)) (length pre) m
      = Return m' (Some ErrUnexpectedEOF)"
    unfolding d by blast
qed

lemma BridgeValidator_decoder_loop: "decoder_loop BridgeValidator_loop BridgeValidator_step"
  unfolding decoder_loop_def
  by (intro allI, subst BridgeValidator_loop.simps) (rule refl)


section \<open>Writing fields from the end of the buffer\<close>

text \<open>
  The encoders fill the buffer from its end: with the index at the end of the unwritten part
  \<open>X\<close>, a block of statements that \<open>writes F\<close> replaces the last \<open>length F\<close> bytes of \<open>X\<close> by \<open>F\<close>
  and moves the index down by as much, provided \<open>X\<close> has the room.
\<close>

definition writes :: "(byte list \<Rightarrow> int \<Rightarrow> (byte list \<times> int) option) \<Rightarrow> byte list \<Rightarrow> bool" where
  "writes f F \<longleftrightarrow>
     (\<forall>X S. length F \<le> length X \<longrightarrow>
        f (X @ S) (int (length X))
          = Some (take (length X - length F) X @ F @ S, int (length X) - int (length F)))"

definition seq_w ::
  "(byte list \<Rightarrow> int \<Rightarrow> (byte list \<times> int) option) \<Rightarrow> (byte list \<Rightarrow> int \<Rightarrow> (byte list \<times> int) option)
     \<Rightarrow> byte list \<Rightarrow> int \<Rightarrow> (byte list \<times> int) option" where
  "seq_w f g = (\<lambda>d i. do { (d', i') \<leftarrow> f d i; g d' i' })"

definition opt_w ::
  "bool \<Rightarrow> (byte list \<Rightarrow> int \<Rightarrow> (byte list \<times> int) option)
     \<Rightarrow> byte list \<Rightarrow> int \<Rightarrow> (byte list \<times> int) option" where
  "opt_w c f = (\<lambda>d i. if c then f d i else Some (d, i))"

definition varint_block :: "byte \<Rightarrow> uint64 \<Rightarrow> byte list \<Rightarrow> int \<Rightarrow> (byte list \<times> int) option" where
  "varint_block t v = (\<lambda>d i. do {
     (d', i') \<leftarrow> encodeVarintTypes d i v;
     d'' \<leftarrow> store d' (i' - 1) t;
     Some (d'', i' - 1) })"

definition bytes_block :: "byte \<Rightarrow> byte list \<Rightarrow> byte list \<Rightarrow> int \<Rightarrow> (byte list \<times> int) option" where
  "bytes_block t bs = (\<lambda>d i. do {
     d' \<leftarrow> copy_at d (i - int (length bs)) bs;
     varint_block t (of_nat (length bs)) d' (i - int (length bs)) })"

lemma writes_nothing: "writes (\<lambda>d i. Some (d, i)) []"
  by (simp add: writes_def)

lemma writes_seq:
  assumes "writes f F" and "writes g G"
  shows "writes (seq_w f g) (G @ F)"
  unfolding writes_def
proof (intro allI impI)
  fix X S :: "byte list"
  assume l: "length (G @ F) \<le> length X"
  define a where "a = length X - length F"
  define X' where "X' = take a X"
  from l have lX': "length X' = a" and lG: "length G \<le> length X'"
    and lF: "length F \<le> length X"
    by (simp_all add: X'_def a_def)
  from assms(1) lF have f: "f (X @ S) (int (length X)) = Some (X' @ F @ S, int (length X'))"
    by (simp add: writes_def X'_def a_def)
  from assms(2) lG have g: "g (X' @ F @ S) (int (length X'))
      = Some (take (length X' - length G) X' @ G @ F @ S, int (length X') - int (length G))"
    by (simp add: writes_def)
  have "take (a - length G) (take a X) = take (a - length G) X"
    by (simp add: min_def)
  then have "take (a - length G) X' = take (a - length G) X"
    by (simp only: X'_def)
  then have "take (length X' - length G) X' = take (a - length G) X"
    by (simp only: lX')
  moreover have "a - length G = length X - length (G @ F)"
    by (simp add: a_def)
  ultimately have tk: "take (length X' - length G) X' = take (length X - length (G @ F)) X"
    by (simp only:)
  from l have ix: "int (length X') - int (length G) = int (length X) - int (length (G @ F))"
    by (simp add: lX' a_def)
  have "seq_w f g (X @ S) (int (length X)) = g (X' @ F @ S) (int (length X'))"
    by (simp add: seq_w_def f)
  also have "\<dots> = Some (take (length X' - length G) X' @ G @ F @ S,
      int (length X') - int (length G))"
    by (rule g)
  also have "\<dots> = Some (take (length X - length (G @ F)) X @ (G @ F) @ S,
      int (length X) - int (length (G @ F)))"
    by (simp only: tk ix append_assoc)
  finally show "seq_w f g (X @ S) (int (length X))
      = Some (take (length X - length (G @ F)) X @ (G @ F) @ S,
              int (length X) - int (length (G @ F)))" .
qed

lemma writes_opt: "writes f F \<Longrightarrow> writes (opt_w c f) (if c then F else [])"
  by (simp add: opt_w_def writes_nothing)

lemma store_last: "X \<noteq> [] \<Longrightarrow> store (X @ S) (int (length X) - 1) t = Some (butlast X @ t # S)"
proof -
  assume "X \<noteq> []"
  then have X: "X = butlast X @ [last X]" by simp
  have "store (butlast X @ last X # S) (int (length (butlast X))) t = Some (butlast X @ t # S)"
    by (rule store_at)
  moreover have "butlast X @ last X # S = X @ S" using X
    by (metis append.assoc append_Cons append_Nil)
  moreover have "int (length (butlast X)) = int (length X) - 1" using \<open>X \<noteq> []\<close>
    by (cases X) simp_all
  ultimately show ?thesis by simp
qed

lemma writes_varint_block: "writes (varint_block t v) (varint_field t v)"
  unfolding writes_def
proof (intro allI impI)
  fix X S :: "byte list"
  assume l: "length (varint_field t v) \<le> length X"
  then have lv: "sovTypes v \<le> length X" and l1: "Suc (sovTypes v) \<le> length X"
    by (simp_all add: length_varint_field)
  define X' where "X' = take (length X - sovTypes v) X"
  from l1 have ne: "X' \<noteq> []" and lX': "int (length X') = int (length X) - int (sovTypes v)"
    by (auto simp add: X'_def)
  have e: "encodeVarintTypes (X @ S) (int (length X)) v
      = Some (X' @ varint_bytes v @ S, int (length X'))"
    using encodeVarintTypes_bytes [OF lv, of S] lv by (simp add: X'_def of_nat_diff)
  have s: "store (X' @ varint_bytes v @ S) (int (length X') - 1) t
      = Some (butlast X' @ t # varint_bytes v @ S)"
    using ne by (rule store_last)
  have b: "butlast X' = take (length X - length (varint_field t v)) X"
    using l1 by (simp add: X'_def butlast_take length_varint_field)
  from l1 have i: "int (length X') - 1 = int (length X) - int (length (varint_field t v))"
    by (simp add: lX' length_varint_field)
  show "varint_block t v (X @ S) (int (length X))
      = Some (take (length X - length (varint_field t v)) X @ varint_field t v @ S,
              int (length X) - int (length (varint_field t v)))"
    by (simp add: varint_block_def e s b [symmetric] i [symmetric]) (simp add: varint_field_def)
qed


lemma copy_at_over:
  "length Q = length src \<Longrightarrow> copy_at (P @ Q @ S) (int (length P)) src = Some (P @ src @ S)"
  by (simp add: copy_at_def)

definition copy_block :: "byte list \<Rightarrow> byte list \<Rightarrow> int \<Rightarrow> (byte list \<times> int) option" where
  "copy_block bs = (\<lambda>d i. do {
     d' \<leftarrow> copy_at d (i - int (length bs)) bs;
     Some (d', i - int (length bs)) })"

lemma writes_copy_block: "writes (copy_block bs) bs"
  unfolding writes_def
proof (intro allI impI)
  fix X S :: "byte list"
  assume l: "length bs \<le> length X"
  define a where "a = length X - length bs"
  define P where "P = take a X"
  define Q where "Q = drop a X"
  from l have lQ: "length Q = length bs" and lP: "int (length P) = int (length X) - int (length bs)"
    and X: "X = P @ Q"
    by (simp_all add: P_def Q_def a_def)
  from copy_at_over [OF lQ, of P S]
  have "copy_at (X @ S) (int (length X) - int (length bs)) bs = Some (P @ bs @ S)"
    by (simp add: X lQ)
  then show "copy_block bs (X @ S) (int (length X))
      = Some (take (length X - length bs) X @ bs @ S, int (length X) - int (length bs))"
    by (simp add: copy_block_def P_def a_def)
qed

lemma bytes_field_split: "bytes_field t bs = varint_field t (of_nat (length bs)) @ bs"
  by (simp add: bytes_field_def varint_field_def)

lemma bytes_block_seq:
  "bytes_block t bs = seq_w (copy_block bs) (varint_block t (of_nat (length bs)))"
  by (intro ext) (simp add: bytes_block_def seq_w_def copy_block_def)

lemma writes_bytes_block: "writes (bytes_block t bs) (bytes_field t bs)"
  unfolding bytes_block_seq bytes_field_split
  using writes_copy_block writes_varint_block by (rule writes_seq)

text \<open>
  What \<^verbatim>\<open>MarshalToSizedBuffer\<close> and \<^verbatim>\<open>Marshal\<close> return when the statements of the encoder write \<open>F\<close>.
\<close>

lemma sized_buffer_result:
  assumes "writes f F" and "length F \<le> length X"
  shows "do { (d, i) \<leftarrow> f X (int (length X)); Some (d, int (length d) - i) }
     = Some (take (length X - length F) X @ F, int (length F))"
proof -
  from assms have "f (X @ []) (int (length X))
      = Some (take (length X - length F) X @ F @ [], int (length X) - int (length F))"
    unfolding writes_def by blast
  with assms(2) show ?thesis by simp
qed


section \<open>BridgeValidator: encoding and decoding\<close>

text \<open>
  The fields \<^verbatim>\<open>BridgeValidator.MarshalToSizedBuffer\<close> puts on the wire, in wire order, each with
  the assignment that decoding it makes.
\<close>

definition BridgeValidator_fields ::
  "BridgeValidator \<Rightarrow> (byte list \<times> (BridgeValidator \<Rightarrow> BridgeValidator)) list" where
  "BridgeValidator_fields r =
     (if Power r \<noteq> 0 then [(varint_field 0x08 (Power r), \<lambda>m. m\<lparr>Power := Power r\<rparr>)] else [])
     @ (if EthereumAddress r \<noteq> []
        then [(bytes_field 0x12 (EthereumAddress r), \<lambda>m. m\<lparr>EthereumAddress := EthereumAddress r\<rparr>)]
        else [])"

lemma BridgeValidator_blocks:
  "BridgeValidator_MarshalToSizedBuffer r X = do {
     (d, i) \<leftarrow> seq_w (opt_w (length (EthereumAddress r) > 0) (bytes_block 0x12 (EthereumAddress r)))
                 (opt_w (Power r \<noteq> 0) (varint_block 0x08 (Power r))) X (int (length X));
     Some (d, int (length d) - i) }"
  by (simp add: BridgeValidator_MarshalToSizedBuffer_def seq_w_def opt_w_def varint_block_def
      bytes_block_def Let_def split_def)

lemma BridgeValidator_wire:
  "wire (BridgeValidator_fields r) =
     (if Power r \<noteq> 0 then varint_field 0x08 (Power r) else [])
      @ (if length (EthereumAddress r) > 0 then bytes_field 0x12 (EthereumAddress r) else [])"
  by (simp add: BridgeValidator_fields_def)

lemma BridgeValidator_writes:
  "writes (seq_w (opt_w (length (EthereumAddress r) > 0) (bytes_block 0x12 (EthereumAddress r)))
             (opt_w (Power r \<noteq> 0) (varint_block 0x08 (Power r))))
     (wire (BridgeValidator_fields r))"
  unfolding BridgeValidator_wire
  by (intro writes_seq writes_opt writes_bytes_block writes_varint_block)

lemma BridgeValidator_Size_wire:
  "BridgeValidator_Size r = length (wire (BridgeValidator_fields r))"
  by (simp add: BridgeValidator_Size_def BridgeValidator_fields_def length_varint_field
      length_bytes_field Let_def)

lemma BridgeValidator_sized:
  assumes "BridgeValidator_Size r \<le> length X"
  shows "BridgeValidator_MarshalToSizedBuffer r X
     = Some (take (length X - BridgeValidator_Size r) X @ wire (BridgeValidator_fields r),
             int (BridgeValidator_Size r))"
  unfolding BridgeValidator_blocks
  using sized_buffer_result [OF BridgeValidator_writes, of r X] assms
  by (simp add: BridgeValidator_Size_wire)

lemma prefix_to_all: "prefix_to d (int (length d)) = Some d"
  by (simp add: prefix_to_def)

lemma BridgeValidator_Marshal_wire:
  "BridgeValidator_Marshal r = Some (wire (BridgeValidator_fields r))"
proof -
  have "BridgeValidator_MarshalToSizedBuffer r (replicate (BridgeValidator_Size r) 0)
     = Some (wire (BridgeValidator_fields r), int (length (wire (BridgeValidator_fields r))))"
    using BridgeValidator_sized [of r "replicate (BridgeValidator_Size r) 0"]
    by (simp add: BridgeValidator_Size_wire)
  then show ?thesis
    using prefix_to_all [of "replicate (BridgeValidator_Size r) (0 :: byte)"]
      prefix_to_all [of "wire (BridgeValidator_fields r)"]
    by (simp add: BridgeValidator_Marshal_def Let_def)
qed

lemma BridgeValidator_fields_decode:
  "\<forall>f \<in> set (BridgeValidator_fields r). decodes BridgeValidator_step (fst f) (snd f)"
  by (auto simp add: BridgeValidator_fields_def BridgeValidator_decodes_Power
      BridgeValidator_decodes_EthereumAddress)

lemma BridgeValidator_fields_truncate:
  "\<forall>f \<in> set (BridgeValidator_fields r). truncates BridgeValidator_step (fst f)"
  by (auto simp add: BridgeValidator_fields_def BridgeValidator_truncates_Power
      BridgeValidator_truncates_EthereumAddress)

lemma BridgeValidator_assign: "assign (BridgeValidator_fields r) BridgeValidator_zero = r"
  by (simp add: BridgeValidator_fields_def BridgeValidator_zero_def)

lemma BridgeValidator_roundtrip:
  assumes "BridgeValidator_Size r < 2 ^ 63"
  shows "BridgeValidator_Unmarshal BridgeValidator_zero (wire (BridgeValidator_fields r)) = (r, None)"
  unfolding BridgeValidator_Unmarshal_def
  using decode_fields [OF BridgeValidator_decoder_loop BridgeValidator_fields_decode, of r
      BridgeValidator_zero] assms
  by (simp add: BridgeValidator_Size_wire BridgeValidator_assign)


lemma ucast_scast_int32: "(ucast (scast (c :: int32) :: uint64) :: int32) = c"
  by (rule bit_word_eqI) (auto simp add: bit_simps)

section \<open>GenericClaim: its fields on the wire\<close>

lemma GenericClaim_decodes_EventNonce:
  "decodes GenericClaim_step (varint_field 0x08 v) (\<lambda>m. m\<lparr>EventNonce := v\<rparr>)"
  unfolding decodes_def
proof (intro conjI allI impI)
  show "varint_field 0x08 v \<noteq> []" by (simp add: varint_field_def)
next
  fix pre rest and m :: GenericClaim
  assume "length (pre @ varint_field 0x08 v @ rest) < 2 ^ 63"
  then have l: "length (pre @ 0x08 # varint_bytes v @ rest) < 2 ^ 63"
    by (simp add: varint_field_def)
  have t: "varint_loop (pre @ 0x08 # varint_bytes v @ rest) (length pre) 0 (0 :: uint64)
      = (ucast (0x08 :: byte), Suc (length pre), None)"
    using l by (rule read_tag) simp
  have r: "varint_loop (pre @ 0x08 # varint_bytes v @ rest) (Suc (length pre)) 0 (0 :: uint64)
      = (ucast v, Suc (length pre + sovTypes v), None)"
    using l by (rule read_value)
  show "GenericClaim_step (pre @ varint_field 0x08 v @ rest) (length pre) m
      = Continue (length pre + length (varint_field 0x08 v)) (m\<lparr>EventNonce := v\<rparr>)"
    by (simp add: GenericClaim_step_def varint_field_def t r length_varint_bytes)
qed

lemma GenericClaim_truncates_EventNonce:
  "truncates GenericClaim_step (varint_field 0x08 v)"
  unfolding truncates_def
proof (intro allI impI)
  fix pre k and m :: GenericClaim
  assume k: "0 < k" "k < length (varint_field 0x08 v)"
    and l: "length (pre @ varint_field 0x08 v) < 2 ^ 63"
  from truncated_varint_field [OF k l, where ?'a = 64] obtain rest' a j where
    d: "pre @ take k (varint_field 0x08 v) = pre @ 0x08 # rest'"
    and ld: "length (pre @ 0x08 # rest') < 2 ^ 63"
    and r: "varint_loop (pre @ 0x08 # rest') (Suc (length pre)) 0 (0 :: uint64)
          = (a, j, Some ErrUnexpectedEOF)" by blast
  from ld have t: "varint_loop (pre @ 0x08 # rest') (length pre) 0 (0 :: uint64)
      = (ucast (0x08 :: byte), Suc (length pre), None)"
    by (rule read_tag) simp
  have "GenericClaim_step (pre @ take k (varint_field 0x08 v)) (length pre) m
      = Return (m\<lparr>EventNonce := a\<rparr>) (Some ErrUnexpectedEOF)"
    unfolding d by (simp add: GenericClaim_step_def t r)
  then show "\<exists>m'. GenericClaim_step (pre @ take k (varint_field 0x08 v)) (length pre) m
      = Return m' (Some ErrUnexpectedEOF)" by blast
qed

lemma GenericClaim_decodes_ClaimType:
  "decodes GenericClaim_step (varint_field 0x10 (scast (c :: int32) :: uint64)) (\<lambda>m. m\<lparr>ClaimType := c\<rparr>)"
  unfolding decodes_def
proof (intro conjI allI impI)
  show "varint_field 0x10 (scast (c :: int32) :: uint64) \<noteq> []" by (simp add: varint_field_def)
next
  fix pre rest and m :: GenericClaim
  assume "length (pre @ varint_field 0x10 (scast (c :: int32) :: uint64) @ rest) < 2 ^ 63"
  then have l: "length (pre @ 0x10 # varint_bytes (scast (c :: int32) :: uint64) @ rest) < 2 ^ 63"
    by (simp add: varint_field_def)
  have t: "varint_loop (pre @ 0x10 # varint_bytes (scast (c :: int32) :: uint64) @ rest) (length pre) 0 (0 :: uint64)
      = (ucast (0x10 :: byte), Suc (length pre), None)"
    using l by (rule read_tag) simp
  have r: "varint_loop (pre @ 0x10 # varint_bytes (scast (c :: int32) :: uint64) @ rest) (Suc (length pre)) 0 (0 :: int32)
      = (ucast (scast (c :: int32) :: uint64), Suc (length pre + sovTypes (scast (c :: int32) :: uint64)), None)"
    using l by (rule read_value)
  show "GenericClaim_step (pre @ varint_field 0x10 (scast (c :: int32) :: uint64) @ rest) (length pre) m
      = Continue (length pre + length (varint_field 0x10 (scast (c :: int32) :: uint64))) (m\<lparr>ClaimType := c\<rparr>)"
    by (simp add: GenericClaim_step_def varint_field_def t r length_varint_bytes ucast_scast_int32)
qed

lemma GenericClaim_truncates_ClaimType:
  "truncates GenericClaim_step (varint_field 0x10 v)"
  unfolding truncates_def
proof (intro allI impI)
  fix pre k and m :: GenericClaim
  assume k: "0 < k" "k < length (varint_field 0x10 v)"
    and l: "length (pre @ varint_field 0x10 v) < 2 ^ 63"
  from truncated_varint_field [OF k l, where ?'a = 32] obtain rest' a j where
    d: "pre @ take k (varint_field 0x10 v) = pre @ 0x10 # rest'"
    and ld: "length (pre @ 0x10 # rest') < 2 ^ 63"
    and r: "varint_loop (pre @ 0x10 # rest') (Suc (length pre)) 0 (0 :: int32)
          = (a, j, Some ErrUnexpectedEOF)" by blast
  from ld have t: "varint_loop (pre @ 0x10 # rest') (length pre) 0 (0 :: uint64)
      = (ucast (0x10 :: byte), Suc (length pre), None)"
    by (rule read_tag) simp
  have "GenericClaim_step (pre @ take k (varint_field 0x10 v)) (length pre) m
      = Return (m\<lparr>ClaimType := a\<rparr>) (Some ErrUnexpectedEOF)"
    unfolding d by (simp add: GenericClaim_step_def t r)
  then show "\<exists>m'. GenericClaim_step (pre @ take k (varint_field 0x10 v)) (length pre) m
      = Return m' (Some ErrUnexpectedEOF)" by blast
qed

lemma GenericClaim_decodes_Hash:
  "decodes GenericClaim_step (bytes_field 0x1a bs) (\<lambda>m. m\<lparr>Hash := Some bs\<rparr>)"
  unfolding decodes_def
proof (intro conjI allI impI)
  show "bytes_field 0x1a bs \<noteq> []" by (simp add: bytes_field_def)
next
  fix pre rest and m :: GenericClaim
  assume a: "length (pre @ bytes_field 0x1a bs @ rest) < 2 ^ 63"
  then have l: "length (pre @ 0x1a # varint_bytes (of_nat (length bs)) @ bs @ rest) < 2 ^ 63"
    by (simp add: bytes_field_def)
  have t: "varint_loop (pre @ 0x1a # varint_bytes (of_nat (length bs)) @ bs @ rest) (length pre) 0
      (0 :: uint64) = (ucast (0x1a :: byte), Suc (length pre), None)"
    using l by (rule read_tag) simp
  note r = read_length_delimited [OF l]
  have d: "pre @ bytes_field 0x1a bs @ rest
      = pre @ 0x1a # varint_bytes (of_nat (length bs)) @ bs @ rest"
    by (simp add: bytes_field_def)
  show "GenericClaim_step (pre @ bytes_field 0x1a bs @ rest) (length pre) m
      = Continue (length pre + length (bytes_field 0x1a bs)) ((\<lambda>m. m\<lparr>Hash := Some bs\<rparr>) m)"
    using r(4) unfolding d
    by (simp add: GenericClaim_step_def t r(1,2,5) r(3) [simplified] Let_def nat_int_add append_reset_def split: option.splits)
qed

lemma GenericClaim_truncates_Hash:
  "truncates GenericClaim_step (bytes_field 0x1a bs)"
  unfolding truncates_def
proof (intro allI impI)
  fix pre k and m :: GenericClaim
  assume k: "0 < k" "k < length (bytes_field 0x1a bs)"
    and l: "length (pre @ bytes_field 0x1a bs) < 2 ^ 63"
  from truncated_bytes_field [OF k l] obtain rest' where
    d: "pre @ take k (bytes_field 0x1a bs) = pre @ 0x1a # rest'"
    and ld: "length (pre @ 0x1a # rest') < 2 ^ 63"
    and c: "(\<exists>a j. varint_loop (pre @ 0x1a # rest') (Suc (length pre)) 0 (0 :: uint64)
                   = (a, j, Some ErrUnexpectedEOF))
         \<or> (varint_loop (pre @ 0x1a # rest') (Suc (length pre)) 0 (0 :: uint64)
                   = (of_nat (length bs), Suc (length pre + sovTypes (of_nat (length bs))), None)
            \<and> sint (of_nat (length bs) :: uint64) = int (length bs)
            \<and> int64 (int (Suc (length pre + sovTypes (of_nat (length bs)))) + int (length bs))
                 = int (length pre + length (bytes_field 0x1a bs))
            \<and> len (pre @ 0x1a # rest') < int (length pre + length (bytes_field 0x1a bs)))"
    by blast
  from ld have t: "varint_loop (pre @ 0x1a # rest') (length pre) 0 (0 :: uint64)
      = (ucast (0x1a :: byte), Suc (length pre), None)"
    by (rule read_tag) simp
  from c have "GenericClaim_step (pre @ 0x1a # rest') (length pre) m
      = Return m (Some ErrUnexpectedEOF)"
  proof
    assume "\<exists>a j. varint_loop (pre @ 0x1a # rest') (Suc (length pre)) 0 (0 :: uint64)
                   = (a, j, Some ErrUnexpectedEOF)"
    then obtain a j where "varint_loop (pre @ 0x1a # rest') (Suc (length pre)) 0 (0 :: uint64)
                   = (a, j, Some ErrUnexpectedEOF)" by blast
    then show ?thesis by (simp add: GenericClaim_step_def t)
  next
    assume a: "varint_loop (pre @ 0x1a # rest') (Suc (length pre)) 0 (0 :: uint64)
                   = (of_nat (length bs), Suc (length pre + sovTypes (of_nat (length bs))), None)
            \<and> sint (of_nat (length bs) :: uint64) = int (length bs)
            \<and> int64 (int (Suc (length pre + sovTypes (of_nat (length bs)))) + int (length bs))
                 = int (length pre + length (bytes_field 0x1a bs))
            \<and> len (pre @ 0x1a # rest') < int (length pre + length (bytes_field 0x1a bs))"
    then have p: "int64 (int (Suc (length pre + sovTypes (of_nat (length bs)))) + int (length bs))
                 = int (length pre + length (bytes_field 0x1a bs))" by blast
    from a show ?thesis
      by (simp add: GenericClaim_step_def t p [simplified] Let_def)
  qed
  then show "\<exists>m'. GenericClaim_step (pre @ take k (bytes_field 0x1a bs)) (length pre) m
      = Return m' (Some ErrUnexpectedEOF)"
    unfolding d by blast
qed

lemma GenericClaim_decodes_EventClaimer:
  "decodes GenericClaim_step (bytes_field 0x22 bs) (\<lambda>m. m\<lparr>EventClaimer := bs\<rparr>)"
  unfolding decodes_def
proof (intro conjI allI impI)
  show "bytes_field 0x22 bs \<noteq> []" by (simp add: bytes_field_def)
next
  fix pre rest and m :: GenericClaim
  assume a: "length (pre @ bytes_field 0x22 bs @ rest) < 2 ^ 63"
  then have l: "length (pre @ 0x22 # varint_bytes (of_nat (length bs)) @ bs @ rest) < 2 ^ 63"
    by (simp add: bytes_field_def)
  have t: "varint_loop (pre @ 0x22 # varint_bytes (of_nat (length bs)) @ bs @ rest) (length pre) 0
      (0 :: uint64) = (ucast (0x22 :: byte), Suc (length pre), None)"
    using l by (rule read_tag) simp
  note r = read_length_delimited [OF l]
  have d: "pre @ bytes_field 0x22 bs @ rest
      = pre @ 0x22 # varint_bytes (of_nat (length bs)) @ bs @ rest"
    by (simp add: bytes_field_def)
  show "GenericClaim_step (pre @ bytes_field 0x22 bs @ rest) (length pre) m
      = Continue (length pre + length (bytes_field 0x22 bs)) ((\<lambda>m. m\<lparr>EventClaimer := bs\<rparr>) m)"
    using r(4) unfolding d
    by (simp add: GenericClaim_step_def t r(1,2,5) r(3) [simplified] Let_def nat_int_add)
qed

lemma GenericClaim_truncates_EventClaimer:
  "truncates GenericClaim_step (bytes_field 0x22 bs)"
  unfolding truncates_def
proof (intro allI impI)
  fix pre k and m :: GenericClaim
  assume k: "0 < k" "k < length (bytes_field 0x22 bs)"
    and l: "length (pre @ bytes_field 0x22 bs) < 2 ^ 63"
  from truncated_bytes_field [OF k l] obtain rest' where
    d: "pre @ take k (bytes_field 0x22 bs) = pre @ 0x22 # rest'"
    and ld: "length (pre @ 0x22 # rest') < 2 ^ 63"
    and c: "(\<exists>a j. varint_loop (pre @ 0x22 # rest') (Suc (length pre)) 0 (0 :: uint64)
                   = (a, j, Some ErrUnexpectedEOF))
         \<or> (varint_loop (pre @ 0x22 # rest') (Suc (length pre)) 0 (0 :: uint64)
                   = (of_nat (length bs), Suc (length pre + sovTypes (of_nat (length bs))), None)
            \<and> sint (of_nat (length bs) :: uint64) = int (length bs)
            \<and> int64 (int (Suc (length pre + sovTypes (of_nat (length bs)))) + int (length bs))
                 = int (length pre + length (bytes_field 0x22 bs))
            \<and> len (pre @ 0x22 # rest') < int (length pre + length (bytes_field 0x22 bs)))"
    by blast
  from ld have t: "varint_loop (pre @ 0x22 # rest') (length pre) 0 (0 :: uint64)
      = (ucast (0x22 :: byte), Suc (length pre), None)"
    by (rule read_tag) simp
  from c have "GenericClaim_step (pre @ 0x22 # rest') (length pre) m
      = Return m (Some ErrUnexpectedEOF)"
  proof
    assume "\<exists>a j. varint_loop (pre @ 0x22 # rest') (Suc (length pre)) 0 (0 :: uint64)
                   = (a, j, Some ErrUnexpectedEOF)"
    then obtain a j where "varint_loop (pre @ 0x22 # rest') (Suc (length pre)) 0 (0 :: uint64)
                   = (a, j, Some ErrUnexpectedEOF)" by blast
    then show ?thesis by (simp add: GenericClaim_step_def t)
  next
    assume a: "varint_loop (pre @ 0x22 # rest') (Suc (length pre)) 0 (0 :: uint64)
                   = (of_nat (length bs), Suc (length pre + sovTypes (of_nat (length bs))), None)
            \<and> sint (of_nat (length bs) :: uint64) = int (length bs)
            \<and> int64 (int (Suc (length pre + sovTypes (of_nat (length bs)))) + int (length bs))
                 = int (length pre + length (bytes_field 0x22 bs))
            \<and> len (pre @ 0x22 # rest') < int (length pre + length (bytes_field 0x22 bs))"
    then have p: "int64 (int (Suc (length pre + sovTypes (of_nat (length bs)))) + int (length bs))
                 = int (length pre + length (bytes_field 0x22 bs))" by blast
    from a show ?thesis
      by (simp add: GenericClaim_step_def t p [simplified] Let_def)
  qed
  then show "\<exists>m'. GenericClaim_step (pre @ take k (bytes_field 0x22 bs)) (length pre) m
      = Return m' (Some ErrUnexpectedEOF)"
    unfolding d by blast
qed

lemma GenericClaim_decoder_loop: "decoder_loop GenericClaim_loop GenericClaim_step"
  unfolding decoder_loop_def
  by (intro allI, subst GenericClaim_loop.simps) (rule refl)

section \<open>Valset: its fields on the wire\<close>

lemma Valset_decodes_Nonce:
  "decodes Valset_step (varint_field 0x08 v) (\<lambda>m. m\<lparr>Nonce := v\<rparr>)"
  unfolding decodes_def
proof (intro conjI allI impI)
  show "varint_field 0x08 v \<noteq> []" by (simp add: varint_field_def)
next
  fix pre rest and m :: Valset
  assume "length (pre @ varint_field 0x08 v @ rest) < 2 ^ 63"
  then have l: "length (pre @ 0x08 # varint_bytes v @ rest) < 2 ^ 63"
    by (simp add: varint_field_def)
  have t: "varint_loop (pre @ 0x08 # varint_bytes v @ rest) (length pre) 0 (0 :: uint64)
      = (ucast (0x08 :: byte), Suc (length pre), None)"
    using l by (rule read_tag) simp
  have r: "varint_loop (pre @ 0x08 # varint_bytes v @ rest) (Suc (length pre)) 0 (0 :: uint64)
      = (ucast v, Suc (length pre + sovTypes v), None)"
    using l by (rule read_value)
  show "Valset_step (pre @ varint_field 0x08 v @ rest) (length pre) m
      = Continue (length pre + length (varint_field 0x08 v)) (m\<lparr>Nonce := v\<rparr>)"
    by (simp add: Valset_step_def varint_field_def t r length_varint_bytes)
qed

lemma Valset_truncates_Nonce:
  "truncates Valset_step (varint_field 0x08 v)"
  unfolding truncates_def
proof (intro allI impI)
  fix pre k and m :: Valset
  assume k: "0 < k" "k < length (varint_field 0x08 v)"
    and l: "length (pre @ varint_field 0x08 v) < 2 ^ 63"
  from truncated_varint_field [OF k l, where ?'a = 64] obtain rest' a j where
    d: "pre @ take k (varint_field 0x08 v) = pre @ 0x08 # rest'"
    and ld: "length (pre @ 0x08 # rest') < 2 ^ 63"
    and r: "varint_loop (pre @ 0x08 # rest') (Suc (length pre)) 0 (0 :: uint64)
          = (a, j, Some ErrUnexpectedEOF)" by blast
  from ld have t: "varint_loop (pre @ 0x08 # rest') (length pre) 0 (0 :: uint64)
      = (ucast (0x08 :: byte), Suc (length pre), None)"
    by (rule read_tag) simp
  have "Valset_step (pre @ take k (varint_field 0x08 v)) (length pre) m
      = Return (m\<lparr>Nonce := a\<rparr>) (Some ErrUnexpectedEOF)"
    unfolding d by (simp add: Valset_step_def t r)
  then show "\<exists>m'. Valset_step (pre @ take k (varint_field 0x08 v)) (length pre) m
      = Return m' (Some ErrUnexpectedEOF)" by blast
qed

lemma Valset_decodes_Height:
  "decodes Valset_step (varint_field 0x18 v) (\<lambda>m. m\<lparr>Height := v\<rparr>)"
  unfolding decodes_def
proof (intro conjI allI impI)
  show "varint_field 0x18 v \<noteq> []" by (simp add: varint_field_def)
next
  fix pre rest and m :: Valset
  assume "length (pre @ varint_field 0x18 v @ rest) < 2 ^ 63"
  then have l: "length (pre @ 0x18 # varint_bytes v @ rest) < 2 ^ 63"
    by (simp add: varint_field_def)
  have t: "varint_loop (pre @ 0x18 # varint_bytes v @ rest) (length pre) 0 (0 :: uint64)
      = (ucast (0x18 :: byte), Suc (length pre), None)"
    using l by (rule read_tag) simp
  have r: "varint_loop (pre @ 0x18 # varint_bytes v @ rest) (Suc (length pre)) 0 (0 :: uint64)
      = (ucast v, Suc (length pre + sovTypes v), None)"
    using l by (rule read_value)
  show "Valset_step (pre @ varint_field 0x18 v @ rest) (length pre) m
      = Continue (length pre + length (varint_field 0x18 v)) (m\<lparr>Height := v\<rparr>)"
    by (simp add: Valset_step_def varint_field_def t r length_varint_bytes)
qed

lemma Valset_truncates_Height:
  "truncates Valset_step (varint_field 0x18 v)"
  unfolding truncates_def
proof (intro allI impI)
  fix pre k and m :: Valset
  assume k: "0 < k" "k < length (varint_field 0x18 v)"
    and l: "length (pre @ varint_field 0x18 v) < 2 ^ 63"
  from truncated_varint_field [OF k l, where ?'a = 64] obtain rest' a j where
    d: "pre @ take k (varint_field 0x18 v) = pre @ 0x18 # rest'"
    and ld: "length (pre @ 0x18 # rest') < 2 ^ 63"
    and r: "varint_loop (pre @ 0x18 # rest') (Suc (length pre)) 0 (0 :: uint64)
          = (a, j, Some ErrUnexpectedEOF)" by blast
  from ld have t: "varint_loop (pre @ 0x18 # rest') (length pre) 0 (0 :: uint64)
      = (ucast (0x18 :: byte), Suc (length pre), None)"
    by (rule read_tag) simp
  have "Valset_step (pre @ take k (varint_field 0x18 v)) (length pre) m
      = Return (m\<lparr>Height := a\<rparr>) (Some ErrUnexpectedEOF)"
    unfolding d by (simp add: Valset_step_def t r)
  then show "\<exists>m'. Valset_step (pre @ take k (varint_field 0x18 v)) (length pre) m
      = Return m' (Some ErrUnexpectedEOF)" by blast
qed


lemma Valset_decodes_Members:
  "decodes Valset_step (bytes_field 0x12 (wire (BridgeValidator_fields e))) (\<lambda>m. m\<lparr>Members := append_member (Members m) e\<rparr>)"
  unfolding decodes_def
proof (intro conjI allI impI)
  show "bytes_field 0x12 (wire (BridgeValidator_fields e)) \<noteq> []" by (simp add: bytes_field_def)
next
  fix pre rest and m :: Valset
  define bs where "bs = wire (BridgeValidator_fields e)"
  assume a: "length (pre @ bytes_field 0x12 (wire (BridgeValidator_fields e)) @ rest) < 2 ^ 63"
  then have l: "length (pre @ 0x12 # varint_bytes (of_nat (length bs)) @ bs @ rest) < 2 ^ 63"
    by (simp add: bytes_field_def bs_def)
  then have "BridgeValidator_Size e < 2 ^ 63"
    by (simp add: BridgeValidator_Size_wire bs_def)
  then have rt: "BridgeValidator_Unmarshal BridgeValidator_zero bs = (e, None)"
    unfolding bs_def by (rule BridgeValidator_roundtrip)
  have t: "varint_loop (pre @ 0x12 # varint_bytes (of_nat (length bs)) @ bs @ rest) (length pre) 0
      (0 :: uint64) = (ucast (0x12 :: byte), Suc (length pre), None)"
    using l by (rule read_tag) simp
  note r = read_length_delimited [OF l]
  have d: "pre @ bytes_field 0x12 bs @ rest
      = pre @ 0x12 # varint_bytes (of_nat (length bs)) @ bs @ rest"
    by (simp add: bytes_field_def)
  have "Valset_step (pre @ bytes_field 0x12 bs @ rest) (length pre) m
      = Continue (length pre + length (bytes_field 0x12 bs)) ((\<lambda>m. m\<lparr>Members := append_member (Members m) e\<rparr>) m)"
    using r(4) unfolding d
    by (simp add: Valset_step_def t r(1,2,5) r(3) [simplified] Let_def nat_int_add rt)
  then show "Valset_step (pre @ bytes_field 0x12 (wire (BridgeValidator_fields e)) @ rest) (length pre) m
      = Continue (length pre + length (bytes_field 0x12 (wire (BridgeValidator_fields e)))) ((\<lambda>m. m\<lparr>Members := append_member (Members m) e\<rparr>) m)"
    by (simp only: bs_def)
qed

lemma Valset_truncates_Members:
  "truncates Valset_step (bytes_field 0x12 bs)"
  unfolding truncates_def
proof (intro allI impI)
  fix pre k and m :: Valset
  assume k: "0 < k" "k < length (bytes_field 0x12 bs)"
    and l: "length (pre @ bytes_field 0x12 bs) < 2 ^ 63"
  from truncated_bytes_field [OF k l] obtain rest' where
    d: "pre @ take k (bytes_field 0x12 bs) = pre @ 0x12 # rest'"
    and ld: "length (pre @ 0x12 # rest') < 2 ^ 63"
    and c: "(\<exists>a j. varint_loop (pre @ 0x12 # rest') (Suc (length pre)) 0 (0 :: uint64)
                   = (a, j, Some ErrUnexpectedEOF))
         \<or> (varint_loop (pre @ 0x12 # rest') (Suc (length pre)) 0 (0 :: uint64)
                   = (of_nat (length bs), Suc (length pre + sovTypes (of_nat (length bs))), None)
            \<and> sint (of_nat (length bs) :: uint64) = int (length bs)
            \<and> int64 (int (Suc (length pre + sovTypes (of_nat (length bs)))) + int (length bs))
                 = int (length pre + length (bytes_field 0x12 bs))
            \<and> len (pre @ 0x12 # rest') < int (length pre + length (bytes_field 0x12 bs)))"
    by blast
  from ld have t: "varint_loop (pre @ 0x12 # rest') (length pre) 0 (0 :: uint64)
      = (ucast (0x12 :: byte), Suc (length pre), None)"
    by (rule read_tag) simp
  from c have "Valset_step (pre @ 0x12 # rest') (length pre) m
      = Return m (Some ErrUnexpectedEOF)"
  proof
    assume "\<exists>a j. varint_loop (pre @ 0x12 # rest') (Suc (length pre)) 0 (0 :: uint64)
                   = (a, j, Some ErrUnexpectedEOF)"
    then obtain a j where "varint_loop (pre @ 0x12 # rest') (Suc (length pre)) 0 (0 :: uint64)
                   = (a, j, Some ErrUnexpectedEOF)" by blast
    then show ?thesis by (simp add: Valset_step_def t)
  next
    assume a: "varint_loop (pre @ 0x12 # rest') (Suc (length pre)) 0 (0 :: uint64)
                   = (of_nat (length bs), Suc (length pre + sovTypes (of_nat (length bs))), None)
            \<and> sint (of_nat (length bs) :: uint64) = int (length bs)
            \<and> int64 (int (Suc (length pre + sovTypes (of_nat (length bs)))) + int (length bs))
                 = int (length pre + length (bytes_field 0x12 bs))
            \<and> len (pre @ 0x12 # rest') < int (length pre + length (bytes_field 0x12 bs))"
    then have p: "int64 (int (Suc (length pre + sovTypes (of_nat (length bs)))) + int (length bs))
                 = int (length pre + length (bytes_field 0x12 bs))" by blast
    from a show ?thesis
      by (simp add: Valset_step_def t p [simplified] Let_def)
  qed
  then show "\<exists>m'. Valset_step (pre @ take k (bytes_field 0x12 bs)) (length pre) m
      = Return m' (Some ErrUnexpectedEOF)"
    unfolding d by blast
qed

lemma Valset_decoder_loop: "decoder_loop Valset_loop Valset_step"
  unfolding decoder_loop_def
  by (intro allI, subst Valset_loop.simps) (rule refl)


section \<open>GenericClaim: encoding and decoding\<close>

text \<open>A slice that is empty, \<^verbatim>\<open>nil\<close> or not, is never written, so it decodes to \<^verbatim>\<open>nil\<close>.\<close>

definition nil_if_empty :: "'a list option \<Rightarrow> 'a list option" where
  "nil_if_empty s = (if slice_of s = [] then None else s)"

definition GenericClaim_fields ::
  "GenericClaim \<Rightarrow> (byte list \<times> (GenericClaim \<Rightarrow> GenericClaim)) list" where
  "GenericClaim_fields r =
     (if EventNonce r \<noteq> 0
      then [(varint_field 0x08 (EventNonce r), \<lambda>m. m\<lparr>EventNonce := EventNonce r\<rparr>)] else [])
     @ (if ClaimType r \<noteq> 0
        then [(varint_field 0x10 (scast (ClaimType r)), \<lambda>m. m\<lparr>ClaimType := ClaimType r\<rparr>)] else [])
     @ (if slice_of (Hash r) \<noteq> []
        then [(bytes_field 0x1a (slice_of (Hash r)), \<lambda>m. m\<lparr>Hash := Some (slice_of (Hash r))\<rparr>)]
        else [])
     @ (if EventClaimer r \<noteq> []
        then [(bytes_field 0x22 (EventClaimer r), \<lambda>m. m\<lparr>EventClaimer := EventClaimer r\<rparr>)]
        else [])"

lemma GenericClaim_blocks:
  "GenericClaim_MarshalToSizedBuffer r X = do {
     (d, i) \<leftarrow> seq_w (seq_w (seq_w
                   (opt_w (length (EventClaimer r) > 0) (bytes_block 0x22 (EventClaimer r)))
                   (opt_w (length (slice_of (Hash r)) > 0) (bytes_block 0x1a (slice_of (Hash r)))))
                   (opt_w (ClaimType r \<noteq> 0) (varint_block 0x10 (scast (ClaimType r)))))
                   (opt_w (EventNonce r \<noteq> 0) (varint_block 0x08 (EventNonce r)))
                 X (int (length X));
     Some (d, int (length d) - i) }"
  by (simp add: GenericClaim_MarshalToSizedBuffer_def seq_w_def opt_w_def varint_block_def
      bytes_block_def Let_def split_def)

lemma GenericClaim_wire:
  "wire (GenericClaim_fields r) =
     (if EventNonce r \<noteq> 0 then varint_field 0x08 (EventNonce r) else [])
     @ (if ClaimType r \<noteq> 0 then varint_field 0x10 (scast (ClaimType r)) else [])
     @ (if length (slice_of (Hash r)) > 0 then bytes_field 0x1a (slice_of (Hash r)) else [])
     @ (if length (EventClaimer r) > 0 then bytes_field 0x22 (EventClaimer r) else [])"
  by (simp add: GenericClaim_fields_def)

lemma GenericClaim_writes:
  "writes (seq_w (seq_w (seq_w
                   (opt_w (length (EventClaimer r) > 0) (bytes_block 0x22 (EventClaimer r)))
                   (opt_w (length (slice_of (Hash r)) > 0) (bytes_block 0x1a (slice_of (Hash r)))))
                   (opt_w (ClaimType r \<noteq> 0) (varint_block 0x10 (scast (ClaimType r)))))
                   (opt_w (EventNonce r \<noteq> 0) (varint_block 0x08 (EventNonce r))))
     (wire (GenericClaim_fields r))"
proof -
  have "writes (seq_w (seq_w (seq_w
                   (opt_w (length (EventClaimer r) > 0) (bytes_block 0x22 (EventClaimer r)))
                   (opt_w (length (slice_of (Hash r)) > 0) (bytes_block 0x1a (slice_of (Hash r)))))
                   (opt_w (ClaimType r \<noteq> 0) (varint_block 0x10 (scast (ClaimType r)))))
                   (opt_w (EventNonce r \<noteq> 0) (varint_block 0x08 (EventNonce r))))
     ((if EventNonce r \<noteq> 0 then varint_field 0x08 (EventNonce r) else [])
     @ ((if ClaimType r \<noteq> 0 then varint_field 0x10 (scast (ClaimType r)) else [])
     @ ((if length (slice_of (Hash r)) > 0 then bytes_field 0x1a (slice_of (Hash r)) else [])
     @ (if length (EventClaimer r) > 0 then bytes_field 0x22 (EventClaimer r) else []))))"
    by (intro writes_seq writes_opt writes_bytes_block writes_varint_block)
  then show ?thesis by (simp only: GenericClaim_wire)
qed

lemma GenericClaim_Size_wire:
  "GenericClaim_Size r = length (wire (GenericClaim_fields r))"
  by (simp add: GenericClaim_Size_def GenericClaim_fields_def length_varint_field
      length_bytes_field Let_def)

lemma GenericClaim_sized:
  assumes "GenericClaim_Size r \<le> length X"
  shows "GenericClaim_MarshalToSizedBuffer r X
     = Some (take (length X - GenericClaim_Size r) X @ wire (GenericClaim_fields r),
             int (GenericClaim_Size r))"
  unfolding GenericClaim_blocks
  using sized_buffer_result [OF GenericClaim_writes, of r X] assms
  by (simp add: GenericClaim_Size_wire)

lemma GenericClaim_Marshal_wire:
  "GenericClaim_Marshal r = Some (wire (GenericClaim_fields r))"
proof -
  have "GenericClaim_MarshalToSizedBuffer r (replicate (GenericClaim_Size r) 0)
     = Some (wire (GenericClaim_fields r), int (length (wire (GenericClaim_fields r))))"
    using GenericClaim_sized [of r "replicate (GenericClaim_Size r) 0"]
    by (simp add: GenericClaim_Size_wire)
  then show ?thesis
    using prefix_to_all [of "replicate (GenericClaim_Size r) (0 :: byte)"]
      prefix_to_all [of "wire (GenericClaim_fields r)"]
    by (simp add: GenericClaim_Marshal_def Let_def)
qed

lemma GenericClaim_fields_decode:
  "\<forall>f \<in> set (GenericClaim_fields r). decodes GenericClaim_step (fst f) (snd f)"
  by (auto simp add: GenericClaim_fields_def GenericClaim_decodes_EventNonce
      GenericClaim_decodes_ClaimType GenericClaim_decodes_Hash GenericClaim_decodes_EventClaimer)

lemma GenericClaim_fields_truncate:
  "\<forall>f \<in> set (GenericClaim_fields r). truncates GenericClaim_step (fst f)"
  by (auto simp add: GenericClaim_fields_def GenericClaim_truncates_EventNonce
      GenericClaim_truncates_ClaimType GenericClaim_truncates_Hash
      GenericClaim_truncates_EventClaimer)

lemma GenericClaim_assign:
  "assign (GenericClaim_fields r) GenericClaim_zero = r\<lparr>Hash := nil_if_empty (Hash r)\<rparr>"
  by (cases "Hash r") (simp_all add: GenericClaim_fields_def GenericClaim_zero_def nil_if_empty_def slice_of_def)

lemma GenericClaim_roundtrip:
  assumes "GenericClaim_Size r < 2 ^ 63"
  shows "GenericClaim_Unmarshal GenericClaim_zero (wire (GenericClaim_fields r))
     = (r\<lparr>Hash := nil_if_empty (Hash r)\<rparr>, None)"
  unfolding GenericClaim_Unmarshal_def
  using decode_fields [OF GenericClaim_decoder_loop GenericClaim_fields_decode, of r
      GenericClaim_zero] assms
  by (simp add: GenericClaim_Size_wire GenericClaim_assign)


section \<open>Valset: encoding and decoding\<close>

definition member_field :: "BridgeValidator \<Rightarrow> byte list \<times> (Valset \<Rightarrow> Valset)" where
  "member_field e =
     (bytes_field 0x12 (wire (BridgeValidator_fields e)),
      \<lambda>m. m\<lparr>Members := append_member (Members m) e\<rparr>)"

definition Valset_fields :: "Valset \<Rightarrow> (byte list \<times> (Valset \<Rightarrow> Valset)) list" where
  "Valset_fields r =
     (if Nonce r \<noteq> 0 then [(varint_field 0x08 (Nonce r), \<lambda>m. m\<lparr>Nonce := Nonce r\<rparr>)] else [])
     @ map member_field (slice_of (Members r))
     @ (if Height r \<noteq> 0 then [(varint_field 0x18 (Height r), \<lambda>m. m\<lparr>Height := Height r\<rparr>)] else [])"

text \<open>One pass of the loop over the members: the member's own encoder, then its length and tag.\<close>

definition member_block :: "BridgeValidator \<Rightarrow> byte list \<Rightarrow> int \<Rightarrow> (byte list \<times> int) option" where
  "member_block e = (\<lambda>d i. do {
     sub \<leftarrow> prefix_to d i;
     (sub', size) \<leftarrow> BridgeValidator_MarshalToSizedBuffer e sub;
     varint_block 0x12 (word_of_int size) (sub' @ drop (nat i) d) (i - size) })"

lemma Valset_members_loop_Suc:
  "Valset_members_loop ms (Suc k) d i
     = seq_w (member_block (ms ! k)) (Valset_members_loop ms k) d i"
  by (simp add: member_block_def varint_block_def seq_w_def Let_def split_def)

lemma writes_member_block: "writes (member_block e) (fst (member_field e))"
  unfolding writes_def
proof (intro allI impI)
  fix X S :: "byte list"
  define W where "W = wire (BridgeValidator_fields e)"
  define F where "F = varint_field 0x12 (of_nat (length W))"
  assume "length (fst (member_field e)) \<le> length X"
  then have l: "length F + length W \<le> length X"
    by (simp add: member_field_def bytes_field_split W_def F_def)
  then have lW: "BridgeValidator_Size e \<le> length X"
    by (simp add: BridgeValidator_Size_wire W_def)
  define X' where "X' = take (length X - length W) X"
  from l have lX': "int (length X') = int (length X) - int (length W)"
    and lF: "length F \<le> length X'"
    by (simp_all add: X'_def)
  have p: "prefix_to (X @ S) (int (length X)) = Some X"
    by (simp add: prefix_to_def)
  have m: "BridgeValidator_MarshalToSizedBuffer e X = Some (X' @ W, int (length W))"
    using BridgeValidator_sized [OF lW] by (simp add: BridgeValidator_Size_wire W_def X'_def)
  from writes_varint_block [of "0x12" "of_nat (length W)"] lF
  have v: "varint_block 0x12 (of_nat (length W)) (X' @ W @ S) (int (length X'))
      = Some (take (length X' - length F) X' @ F @ W @ S, int (length X') - int (length F))"
    by (simp add: writes_def F_def)
  have "take (length X' - length F) (take (length X - length W) X)
      = take (length X' - length F) X"
    by (simp add: min_def X'_def)
  then have "take (length X' - length F) X' = take (length X' - length F) X"
    by (simp only: X'_def [symmetric])
  moreover from l have "length X' - length F = length X - (length F + length W)"
    by (simp add: X'_def)
  ultimately have tk: "take (length X' - length F) X' = take (length X - (length F + length W)) X"
    by (simp only:)
  from l have ix: "int (length X') - int (length F) = int (length X) - int (length F + length W)"
    by (simp add: lX')
  have "member_block e (X @ S) (int (length X))
      = varint_block 0x12 (of_nat (length W)) (X' @ W @ S) (int (length X'))"
    by (simp add: member_block_def p m lX')
  also have "\<dots> = Some (take (length X' - length F) X' @ F @ W @ S,
      int (length X') - int (length F))"
    by (rule v)
  also have "\<dots> = Some (take (length X - (length F + length W)) X @ (F @ W) @ S,
      int (length X) - int (length F + length W))"
    by (simp only: tk ix append_assoc)
  finally show "member_block e (X @ S) (int (length X))
      = Some (take (length X - length (fst (member_field e))) X @ fst (member_field e) @ S,
              int (length X) - int (length (fst (member_field e))))"
    by (simp add: member_field_def bytes_field_split W_def F_def)
qed

lemma writes_members_loop:
  "k \<le> length ms \<Longrightarrow> writes (Valset_members_loop ms k) (wire (map member_field (take k ms)))"
proof (induction k)
  case 0
  show ?case using writes_nothing by (simp add: writes_def)
next
  case (Suc k)
  then have k: "k < length ms" and IH: "writes (Valset_members_loop ms k) (wire (map member_field (take k ms)))"
    by simp_all
  have "writes (seq_w (member_block (ms ! k)) (Valset_members_loop ms k))
      (wire (map member_field (take k ms)) @ fst (member_field (ms ! k)))"
    using writes_member_block IH by (rule writes_seq)
  moreover have "Valset_members_loop ms (Suc k) = seq_w (member_block (ms ! k)) (Valset_members_loop ms k)"
    by (intro ext) (rule Valset_members_loop_Suc)
  moreover have "wire (map member_field (take (Suc k) ms))
      = wire (map member_field (take k ms)) @ fst (member_field (ms ! k))"
    using k by (simp add: take_Suc_conv_app_nth)
  ultimately show ?case by simp
qed


lemma Valset_blocks:
  "Valset_MarshalToSizedBuffer r X = do {
     (d, i) \<leftarrow> seq_w (seq_w
                   (opt_w (Height r \<noteq> 0) (varint_block 0x18 (Height r)))
                   (opt_w (length (slice_of (Members r)) > 0)
                      (Valset_members_loop (slice_of (Members r)) (length (slice_of (Members r))))))
                   (opt_w (Nonce r \<noteq> 0) (varint_block 0x08 (Nonce r)))
                 X (int (length X));
     Some (d, int (length d) - i) }"
  by (simp add: Valset_MarshalToSizedBuffer_def seq_w_def opt_w_def varint_block_def
      Let_def split_def)

lemma Valset_wire:
  "wire (Valset_fields r) =
     (if Nonce r \<noteq> 0 then varint_field 0x08 (Nonce r) else [])
     @ (if length (slice_of (Members r)) > 0
        then wire (map member_field (take (length (slice_of (Members r))) (slice_of (Members r))))
        else [])
     @ (if Height r \<noteq> 0 then varint_field 0x18 (Height r) else [])"
  by (simp add: Valset_fields_def)

lemma Valset_writes:
  "writes (seq_w (seq_w
                   (opt_w (Height r \<noteq> 0) (varint_block 0x18 (Height r)))
                   (opt_w (length (slice_of (Members r)) > 0)
                      (Valset_members_loop (slice_of (Members r)) (length (slice_of (Members r))))))
                   (opt_w (Nonce r \<noteq> 0) (varint_block 0x08 (Nonce r))))
     (wire (Valset_fields r))"
proof -
  have "writes (Valset_members_loop (slice_of (Members r)) (length (slice_of (Members r))))
      (wire (map member_field (take (length (slice_of (Members r))) (slice_of (Members r)))))"
    by (rule writes_members_loop) simp
  then have "writes (seq_w (seq_w
                   (opt_w (Height r \<noteq> 0) (varint_block 0x18 (Height r)))
                   (opt_w (length (slice_of (Members r)) > 0)
                      (Valset_members_loop (slice_of (Members r)) (length (slice_of (Members r))))))
                   (opt_w (Nonce r \<noteq> 0) (varint_block 0x08 (Nonce r))))
     ((if Nonce r \<noteq> 0 then varint_field 0x08 (Nonce r) else [])
     @ ((if length (slice_of (Members r)) > 0
        then wire (map member_field (take (length (slice_of (Members r))) (slice_of (Members r))))
        else [])
     @ (if Height r \<noteq> 0 then varint_field 0x18 (Height r) else [])))"
    by (intro writes_seq writes_opt writes_varint_block)
  then show ?thesis by (simp only: Valset_wire)
qed

lemma members_size_fold:
  "fold (\<lambda>e n. let l = BridgeValidator_Size e in n + (1 + l + sovTypes (of_nat l))) ms n
     = n + length (wire (map member_field ms))"
  by (induction ms arbitrary: n)
    (simp_all add: member_field_def length_bytes_field BridgeValidator_Size_wire Let_def)

lemma Valset_Size_wire: "Valset_Size r = length (wire (Valset_fields r))"
  unfolding Valset_Size_def members_size_fold
  by (simp add: Valset_fields_def length_varint_field Let_def)

lemma Valset_sized:
  assumes "Valset_Size r \<le> length X"
  shows "Valset_MarshalToSizedBuffer r X
     = Some (take (length X - Valset_Size r) X @ wire (Valset_fields r), int (Valset_Size r))"
  unfolding Valset_blocks
  using sized_buffer_result [OF Valset_writes, of r X] assms
  by (simp add: Valset_Size_wire)

lemma Valset_Marshal_wire: "Valset_Marshal r = Some (wire (Valset_fields r))"
proof -
  have "Valset_MarshalToSizedBuffer r (replicate (Valset_Size r) 0)
     = Some (wire (Valset_fields r), int (length (wire (Valset_fields r))))"
    using Valset_sized [of r "replicate (Valset_Size r) 0"]
    by (simp add: Valset_Size_wire)
  then show ?thesis
    using prefix_to_all [of "replicate (Valset_Size r) (0 :: byte)"]
      prefix_to_all [of "wire (Valset_fields r)"]
    by (simp add: Valset_Marshal_def Let_def)
qed

lemma Valset_fields_decode:
  "\<forall>f \<in> set (Valset_fields r). decodes Valset_step (fst f) (snd f)"
  by (auto simp add: Valset_fields_def member_field_def Valset_decodes_Nonce
      Valset_decodes_Height Valset_decodes_Members)

lemma Valset_fields_truncate:
  "\<forall>f \<in> set (Valset_fields r). truncates Valset_step (fst f)"
  by (auto simp add: Valset_fields_def member_field_def Valset_truncates_Nonce
      Valset_truncates_Height Valset_truncates_Members)

lemma assign_members:
  "assign (map member_field ms) m
     = (if ms = [] then m else m\<lparr>Members := Some (slice_of (Members m) @ ms)\<rparr>)"
  by (induction ms arbitrary: m)
    (simp_all add: member_field_def append_member_def slice_of_def)

lemma Valset_assign:
  "assign (Valset_fields r) Valset_zero = r\<lparr>Members := nil_if_empty (Members r)\<rparr>"
  by (cases "Members r")
    (simp_all add: Valset_fields_def Valset_zero_def nil_if_empty_def slice_of_def assign_members)

lemma Valset_roundtrip:
  assumes "Valset_Size r < 2 ^ 63"
  shows "Valset_Unmarshal Valset_zero (wire (Valset_fields r))
     = (r\<lparr>Members := nil_if_empty (Members r)\<rparr>, None)"
  unfolding Valset_Unmarshal_def
  using decode_fields [OF Valset_decoder_loop Valset_fields_decode, of r Valset_zero] assms
  by (simp add: Valset_Size_wire Valset_assign)


section \<open>Decoding a prefix of an encoding\<close>

lemma wire_take_le: "length (wire (take j fs)) \<le> length (wire fs)"
proof -
  have "wire fs = wire (take j fs) @ wire (drop j fs)"
    by (metis append_take_drop_id wire_simps(3))
  then show ?thesis by (metis length_append le_add1)
qed

lemma decode_boundary:
  assumes "decoder_loop loop step" and "\<forall>f \<in> set fs. decodes step (fst f) (snd f)"
    and "length (wire fs) < 2 ^ 63"
  shows "loop (wire (take j fs)) 0 m = (assign (take j fs) m, None)"
proof -
  have "\<forall>f \<in> set (take j fs). decodes step (fst f) (snd f)"
    using assms(2) by (meson in_set_takeD)
  moreover have "length (wire (take j fs)) < 2 ^ 63"
    using wire_take_le [of j fs] assms(3) by linarith
  ultimately show ?thesis using assms(1) by (intro decode_fields)
qed

lemma decode_inside:
  assumes "decoder_loop loop step" and "\<forall>f \<in> set fs. decodes step (fst f) (snd f)"
    and "\<forall>f \<in> set fs. truncates step (fst f)"
    and "length (wire fs) < 2 ^ 63" and "n < length (wire fs)"
    and "\<forall>j. n \<noteq> length (wire (take j fs))"
  shows "snd (loop (take n (wire fs)) 0 m) = Some ErrUnexpectedEOF"
proof -
  from assms(2) have ne: "\<forall>f \<in> set fs. fst f \<noteq> []" by (auto simp: decodes_def)
  from cut_fields [OF assms(5) ne] obtain j k where j: "j < length fs"
    and k: "k < length (fst (fs ! j))" and n: "n = length (wire (take j fs)) + k"
    and t: "take n (wire fs) = wire (take j fs) @ take k (fst (fs ! j))"
    by blast
  from assms(6) n have k0: "0 < k" by (cases k) auto
  have d: "\<forall>f \<in> set (take j fs). decodes step (fst f) (snd f)"
    using assms(2) by (meson in_set_takeD)
  from j assms(3) have tr: "truncates step (fst (fs ! j))" by simp
  have "wire (take (Suc j) fs) = wire (take j fs) @ fst (fs ! j)"
    using j by (simp add: take_Suc_conv_app_nth)
  with wire_take_le [of "Suc j" fs] assms(4)
  have l: "length (wire (take j fs) @ fst (fs ! j)) < 2 ^ 63" by simp
  from decode_truncated_field [OF assms(1) d tr k0 k l, of m] show ?thesis
    by (simp only: t)
qed


section \<open>Negative claim types\<close>

lemma sovTypes_top: "2 ^ 63 \<le> unat v \<Longrightarrow> sovTypes v = 10"
proof -
  assume v: "2 ^ 63 \<le> unat v"
  then have "0 < unat v" by (metis less_le_trans zero_less_numeral zero_less_power)
  then have v0: "v \<noteq> 0" by auto
  from v have "0 < unat v div 2 ^ 63" by (simp add: div_greater_zero_iff)
  then have "0 < bit_len (unat v div 2 ^ 63)" by (simp add: bit_len_pos)
  with bit_len_div_power [OF v] have "64 \<le> bit_len (unat v)" by simp
  moreover have "bit_len (unat v) \<le> 64"
    using unsigned_less [of v] by (intro bit_len_le) simp
  ultimately have "Len64 v = 64" by (simp add: Len64_def)
  with Len64_or_1 [OF v0] show ?thesis by (simp add: sovTypes_def)
qed

lemma unat_scast_negative:
  assumes "sint (c :: int32) < 0"
  shows "2 ^ 63 \<le> unat (scast c :: uint64)"
proof -
  have lo: "- (2 ^ 31) \<le> sint c" using sint_ge [of c] by simp
  have "(scast c :: uint64) = word_of_int (sint c)" by simp
  then have "uint (scast c :: uint64) = uint (word_of_int (sint c) :: uint64)" by (simp only:)
  also have "\<dots> = sint c mod 2 ^ 64"
    by (simp add: uint_word_of_int del: of_int_sint)
  also have "sint c mod 2 ^ 64 = sint c + 2 ^ 64"
  proof -
    have "(sint c + 2 ^ 64) mod 2 ^ 64 = sint c + 2 ^ 64"
      using assms lo by (intro mod_pos_pos_trivial) simp_all
    then show ?thesis by (simp only: mod_add_self2)
  qed
  finally have "uint (scast c :: uint64) = sint c + 2 ^ 64" .
  with lo have "2 ^ 63 \<le> uint (scast c :: uint64)" by simp
  then have "nat (2 ^ 63) \<le> nat (uint (scast c :: uint64))" by (rule nat_mono)
  moreover have "nat (uint (scast c :: uint64)) = unat (scast c :: uint64)" by simp
  moreover have "nat (2 ^ 63) = (2 ^ 63 :: nat)" by simp
  ultimately show ?thesis by (simp only:)
qed

lemma scast_of_sint: "(word_of_int (sint (c :: int32)) :: uint64) = scast c"
  by simp


section \<open>Concrete scenarios\<close>

lemmas eval_simps =
  sovTypes_def Len64_def bit_len.simps encodeVarintTypes_def encodeVarint_loop.simps
  store_def copy_at_def prefix_to_def len_def int64_def varint_loop.simps
  skip_varint_loop.simps skipTypes_switch_def skipTypes_loop.simps skipTypes_def
  skip_unknown_def slice_def slice_of_def

lemmas BridgeValidator_eval =
  BridgeValidator_Marshal_def BridgeValidator_Size_def BridgeValidator_MarshalToSizedBuffer_def
  BridgeValidator_Unmarshal_def BridgeValidator_zero_def BridgeValidator_loop.simps
  BridgeValidator_step_def

lemmas Valset_eval =
  Valset_Marshal_def Valset_Size_def Valset_MarshalToSizedBuffer_def Valset_Unmarshal_def
  Valset_zero_def Valset_loop.simps Valset_step_def append_member_def

lemmas GenericClaim_eval =
  GenericClaim_Marshal_def GenericClaim_Size_def GenericClaim_MarshalToSizedBuffer_def
  GenericClaim_Unmarshal_def GenericClaim_zero_def GenericClaim_loop.simps GenericClaim_step_def
  append_reset_def

text \<open>
  C8. Encoding \<^verbatim>\<open>BridgeValidator{Power: 300, EthereumAddress: "0xabc"}\<close> yields exactly the ten
  bytes \<^verbatim>\<open>08 AC 02 12 05 30 78 61 62 63\<close>, and decoding those ten bytes into a zero record
  succeeds with exactly that record.
\<close>

theorem C8_concrete_scenario:
  "BridgeValidator_Marshal \<lparr>Power = 300, EthereumAddress = [0x30, 0x78, 0x61, 0x62, 0x63]\<rparr>
     = Some [0x08, 0xAC, 0x02, 0x12, 0x05, 0x30, 0x78, 0x61, 0x62, 0x63]
   \<and> BridgeValidator_Unmarshal BridgeValidator_zero
       [0x08, 0xAC, 0x02, 0x12, 0x05, 0x30, 0x78, 0x61, 0x62, 0x63]
     = (\<lparr>Power = 300, EthereumAddress = [0x30, 0x78, 0x61, 0x62, 0x63]\<rparr>, None)"
  by (simp add: BridgeValidator_eval eval_simps)

text \<open>
  C9. Decoding is not atomic in its receiver. The buffer \<^verbatim>\<open>08 AC 02 12 05 30 78\<close> holds a
  complete \<^verbatim>\<open>power\<close> field (300) and an \<^verbatim>\<open>ethereum_address\<close> field that announces five bytes
  but carries two: decoding it into a zero record returns \<^verbatim>\<open>io.ErrUnexpectedEOF\<close>, and the receiver
  is left with \<^verbatim>\<open>Power = 300\<close>.
\<close>

theorem C9_decode_not_atomic:
  "BridgeValidator_Unmarshal BridgeValidator_zero [0x08, 0xAC, 0x02, 0x12, 0x05, 0x30, 0x78]
     = (\<lparr>Power = 300, EthereumAddress = []\<rparr>, Some ErrUnexpectedEOF)
   \<and> Power \<lparr>Power = 300, EthereumAddress = []\<rparr> \<noteq> Power BridgeValidator_zero"
  by (simp add: BridgeValidator_eval eval_simps)

end
